theory Spec2Isabelle
  imports Complex_Main
begin

section \<open>Scroll-synchronised video playback: the script \<open>slider_main.js\<close>\<close>

text \<open>
  JavaScript numbers are modelled as real numbers: rounding, NaN and the infinities are left
  out. The one exception is the size comparison of \<open>setSrc\<close>, where rounding decides which
  video is loaded: it is modelled in exact double arithmetic. A percentage written as a string in the page data (\<open>"0.065"\<close>) is the number it
  denotes, as the comparisons and \<open>parseFloat\<close> of the source make it. The divisions by
  \<open>frameLength\<close> and \<open>frameRate\<close> are the real ones: JavaScript yields NaN or an infinity
  for a zero divisor, so a property that depends on such a division is stated for bindings
  with a positive frame rate and frame count (\<open>wf_binding\<close>).
\<close>

subsection \<open>Data model\<close>

text \<open>A slide of the binding: its scroll percentage and the two fallback image paths.\<close>

record slide =
  percent :: real
  fallbackdesktop :: string
  fallbackmobile :: string

text \<open>
  The binding \<open>obj\<close> with the constants that \<open>create\<close> parses from it
  (\<open>keyFrameLength\<close>, \<open>frameRate\<close>, \<open>frameLength\<close> by \<open>parseInt\<close>, the scroll range
  by \<open>parseFloat\<close>). \<open>pauses\<close> and \<open>single_frames\<close> may be undefined.
\<close>

record binding =
  keyFrameLength :: int
  frameRate :: int
  frameLength :: int
  startScroll :: real
  endScroll :: real
  pauses :: "(real \<times> real) list option"
  slides :: "slide list"
  single_frames :: "string option"

definition wf_binding :: "binding \<Rightarrow> bool" where
  "wf_binding cfg = (0 < frameRate cfg \<and> 0 < frameLength cfg)"

text \<open>An entry of \<open>fallbackImages\<close>: the start percentage and whether the image element
  carries the class \<open>g-show\<close>.\<close>

record fallback_image =
  start :: real
  g_show :: bool

datatype visibility = Vis_unset | Vis_visible | Vis_hidden

text \<open>The video element: play position, the two style properties the script writes, the
  buffered time ranges as (start, end) pairs, and the media ready-state (0 to 4).\<close>

record video_el =
  currentTime :: real
  opacity :: "real option"
  visibility :: visibility
  buffered :: "(real \<times> real) list"
  el_readyState :: nat
  paused :: bool

text \<open>The still image: its \<open>g-show\<close> class, its opacity, and the frame number of the still
  whose load was requested last (the URL is built from that number).\<close>

record still_image =
  still_show :: bool
  still_opacity :: "real option"
  still_frame :: "int option"

text \<open>The mutable variables of one \<open>create\<close> closure. \<open>timeouts\<close> holds the arguments of
  the pending \<open>setTimeout (function () { jumpToTime (jumpToPct); }, 10)\<close> callbacks, oldest
  first; \<open>playThroughTimer\<close> says whether the polling interval is still set.\<close>

record player =
  scrollPct :: real
  videoLastFrame :: real
  videoShouldUpdate :: bool
  readyState :: bool
  fallbackImages :: "fallback_image list"
  video :: video_el
  stillImage :: still_image
  timeouts :: "real list"
  playThroughTimer :: bool

datatype error = TypeError

definition stepDivisor :: real where
  "stepDivisor = 10"

subsection \<open>adjustScrollPct\<close>

text \<open>The value \<open>jumpToPct\<close> that \<open>adjustScrollPct\<close> computes from the stored scroll
  percentage.\<close>

definition jumpToPct :: "binding \<Rightarrow> real \<Rightarrow> real" where
  "jumpToPct cfg p =
     (if p > startScroll cfg \<and> p < endScroll cfg then
        (let adjustedPct = (p - startScroll cfg) / (endScroll cfg - startScroll cfg)
         in if adjustedPct > 1 then 1 else if adjustedPct < 0 then 0 else adjustedPct)
      else if p \<ge> endScroll cfg then 1
      else 0)"

text \<open>\<open>clearTimeout (custTimer)\<close> does nothing (\<open>custTimer\<close> stays null); the function
  schedules \<open>jumpToTime (jumpToPct)\<close>.\<close>

definition adjustScrollPct :: "binding \<Rightarrow> player \<Rightarrow> player" where
  "adjustScrollPct cfg s = s\<lparr>timeouts := timeouts s @ [jumpToPct cfg (scrollPct s)]\<rparr>"

text \<open>The target frame: \<open>videoNextFrame = frameLength * pct\<close> of \<open>jumpToTime\<close>.\<close>

definition videoNextFrame :: "binding \<Rightarrow> real \<Rightarrow> real" where
  "videoNextFrame cfg pct = real_of_int (frameLength cfg) * pct"

subsection \<open>showFallback, hideFallback, updateStill\<close>

definition showFallback :: "player \<Rightarrow> player" where
  "showFallback s =
     s\<lparr>fallbackImages :=
          map (\<lambda>(index, img).
                 img\<lparr>g_show := (scrollPct s \<ge> start img \<and> scrollPct s > 0
                                \<or> scrollPct s < start img \<and> index = (0::nat))\<rparr>)
              (enumerate 0 (fallbackImages s)),
        video := (video s)\<lparr>opacity := Some 0, visibility := Vis_hidden\<rparr>\<rparr>"

definition hideFallback :: "player \<Rightarrow> player" where
  "hideFallback s =
     s\<lparr>fallbackImages := map (\<lambda>img. img\<lparr>g_show := False\<rparr>) (fallbackImages s),
        video := (video s)\<lparr>opacity := Some 1, visibility := Vis_visible\<rparr>\<rparr>"

text \<open>\<open>updateStill\<close> hides the still and, when \<open>single_frames\<close> is defined, requests the
  still of frame \<open>Math.floor (pct)\<close>; its \<open>onload\<close> runs later.\<close>

definition updateStill :: "binding \<Rightarrow> real \<Rightarrow> player \<Rightarrow> player" where
  "updateStill cfg pct s =
     (let st = (stillImage s)\<lparr>still_show := False, still_opacity := Some 0\<rparr>
      in s\<lparr>stillImage :=
             (case single_frames cfg of
                None \<Rightarrow> st
              | Some _ \<Rightarrow> st\<lparr>still_frame := Some \<lfloor>pct\<rfloor>\<rparr>)\<rparr>)"

subsection \<open>checkBuffered\<close>

text \<open>
  The first loop of \<open>checkBuffered\<close>, \<open>while (fallbackLen--)\<close>: the last argument is
  \<open>fallbackLen\<close> before the test, \<open>n\<close> is \<open>obj.slides.length\<close>. An index past the loaded
  images reads \<open>undefined\<close> and breaks with the range still (0, 0); reading \<open>.start\<close> of an
  undefined next entry would throw.
\<close>

fun fallbackRange :: "nat \<Rightarrow> fallback_image list \<Rightarrow> real \<Rightarrow> nat \<Rightarrow> error + (real \<times> real)" where
  "fallbackRange n imgs currPct 0 = Inr (0, 0)"
| "fallbackRange n imgs currPct (Suc i) =
     (if length imgs \<le> i then Inr (0, 0)
      else if currPct > start (imgs ! i) then
        (if int i = int n - 1 then Inr (start (imgs ! i), 1)
         else if i + 1 < length imgs then Inr (start (imgs ! i), start (imgs ! (i + 1)))
         else Inl TypeError)
      else fallbackRange n imgs currPct i)"

text \<open>The second loop, \<open>while (bufferedLen--)\<close>, over the buffered ranges from the last.
  It starts from \<open>video.buffered.length\<close>, so every index it reads is below the length.\<close>

fun bufferedLoop :: "(real \<times> real) list \<Rightarrow> real \<Rightarrow> real \<times> real \<Rightarrow> nat \<Rightarrow> bool" where
  "bufferedLoop b currPct rng 0 = False"
| "bufferedLoop b currPct rng (Suc i) =
     (let buffStart = fst (b ! i); buffEnd = snd (b ! i)
      in if currPct \<ge> buffStart \<and> currPct \<le> buffEnd
            \<and> fst rng \<ge> buffStart \<and> snd rng \<le> buffEnd
         then True
         else bufferedLoop b currPct rng i)"

definition currPct_of :: "binding \<Rightarrow> real \<Rightarrow> real" where
  "currPct_of cfg frameToUse =
     (let currPct = frameToUse / real_of_int (frameLength cfg)
      in if currPct < 0 then 0 else if currPct > 1 then 1 else currPct)"

definition checkBuffered :: "binding \<Rightarrow> player \<Rightarrow> real \<Rightarrow> error + bool" where
  "checkBuffered cfg s frameToUse =
     (if \<not> readyState s then Inr False
      else
        (let currPct = currPct_of cfg frameToUse
         in case fallbackRange (length (slides cfg)) (fallbackImages s) currPct
                   (length (slides cfg)) of
              Inl e \<Rightarrow> Inl e
            | Inr rng \<Rightarrow>
                Inr (bufferedLoop (buffered (video s)) currPct rng
                       (length (buffered (video s))))))"

subsection \<open>checkForPauses, getTimeFromKeyframe, jumpToTime\<close>

text \<open>The loop \<open>while (pausesLen--)\<close> over the pause regions, from the last. It starts from
  \<open>obj.pauses.length\<close>, so every index it reads is below the length.\<close>

fun pausesLoop :: "binding \<Rightarrow> real \<Rightarrow> (real \<times> real) list \<Rightarrow> real \<Rightarrow> real \<Rightarrow> nat \<Rightarrow> real" where
  "pausesLoop cfg lastFrame ps frameToUse pct 0 = frameToUse"
| "pausesLoop cfg lastFrame ps frameToUse pct (Suc i) =
     (if pct > fst (ps ! i) \<and> pct < snd (ps ! i) then
        (let adjNextFrame = real_of_int (frameLength cfg) * fst (ps ! i);
             adjCurFrame = lastFrame + ((adjNextFrame - lastFrame) / stepDivisor)
         in adjCurFrame)
      else pausesLoop cfg lastFrame ps frameToUse pct i)"

definition checkForPauses :: "binding \<Rightarrow> player \<Rightarrow> real \<Rightarrow> real \<Rightarrow> real" where
  "checkForPauses cfg s frameToUse pct =
     (case pauses cfg of
        None \<Rightarrow> frameToUse
      | Some ps \<Rightarrow> pausesLoop cfg (videoLastFrame s) ps frameToUse pct (length ps))"

definition getTimeFromKeyframe :: "binding \<Rightarrow> real \<Rightarrow> real" where
  "getTimeFromKeyframe cfg keyframe = keyframe / real_of_int (frameRate cfg)"

text \<open>The value assigned to \<open>video.currentTime\<close>:
  \<open>timeFromKeyrame < 0 ? 0 : timeFromKeyrame > frameLength ? frameLength : timeFromKeyrame\<close>.\<close>

definition clampTime :: "binding \<Rightarrow> real \<Rightarrow> real" where
  "clampTime cfg timeFromKeyframe =
     (if timeFromKeyframe < 0 then 0
      else if timeFromKeyframe > real_of_int (frameLength cfg) then real_of_int (frameLength cfg)
      else timeFromKeyframe)"

text \<open>The frame \<open>jumpToTime\<close> passes to \<open>checkBuffered\<close>: one step of the easing from the
  last frame toward the target, clamped to the frames of the video.\<close>

definition easedFrame :: "binding \<Rightarrow> player \<Rightarrow> real \<Rightarrow> real" where
  "easedFrame cfg s pct =
     (let videoCurrFrame =
            videoLastFrame s + ((videoNextFrame cfg pct - videoLastFrame s) / stepDivisor)
      in if videoCurrFrame < 0 then 0
         else if videoCurrFrame > real_of_int (frameLength cfg) then real_of_int (frameLength cfg)
         else videoCurrFrame)"

definition jumpToTime :: "binding \<Rightarrow> real \<Rightarrow> player \<Rightarrow> error + player" where
  "jumpToTime cfg pct s =
     (let frameToUse = easedFrame cfg s pct
      in case checkBuffered cfg s frameToUse of
           Inl e \<Rightarrow> Inl e
         | Inr isBuffered \<Rightarrow>
             if isBuffered then
               (let s1 = hideFallback s;
                    frameToUse' = checkForPauses cfg s1 frameToUse pct;
                    timeFromKeyframe = getTimeFromKeyframe cfg frameToUse';
                    s2 = s1\<lparr>video := (video s1)\<lparr>currentTime :=
                            clampTime cfg timeFromKeyframe\<rparr>\<rparr>;
                    s3 = (if \<bar>videoNextFrame cfg pct - frameToUse'\<bar>
                               < real_of_int (keyFrameLength cfg + 1)
                          then updateStill cfg frameToUse' (s2\<lparr>videoShouldUpdate := False\<rparr>)
                          else s2\<lparr>stillImage :=
                                     (stillImage s2)\<lparr>still_show := False,
                                                      still_opacity := Some 0\<rparr>,
                                   videoShouldUpdate := True\<rparr>)
                in Inr (s3\<lparr>videoLastFrame := frameToUse'\<rparr>))
             else Inr ((showFallback s)\<lparr>videoLastFrame := frameToUse\<rparr>))"

subsection \<open>The progress handler of startScrollAnimation\<close>

datatype scene_state = BEFORE | DURING | AFTER

record progress_event =
  ev_state :: scene_state
  progress :: real

text \<open>\<open>hideAllElements\<close> has an empty body.\<close>

definition onProgress :: "binding \<Rightarrow> progress_event \<Rightarrow> player \<Rightarrow> player" where
  "onProgress cfg e s =
     (let s1 = (if ev_state e = BEFORE \<or> ev_state e = AFTER
                then s\<lparr>videoShouldUpdate := False\<rparr> else s)
      in if scrollPct s1 \<noteq> progress e then
           (let s2 = s1\<lparr>scrollPct := progress e\<rparr>
            in if \<not> videoShouldUpdate s2 then adjustScrollPct cfg s2 else s2)
         else s1)"

subsection \<open>The range checked by checkBuffered, in closed form\<close>

text \<open>
  The percentage range of the applicable fallback slot, stated apart from the loop: when an
  image has been pushed for every one of the \<open>n\<close> slides, the slot is the last one in slide
  order whose start lies strictly below the current percentage, and its range runs from its
  start to the start of the next slot (to 1 for the last slot). When images are still
  missing, or no slot starts below the current percentage, the range is (0, 0).
\<close>

definition slotRange :: "nat \<Rightarrow> fallback_image list \<Rightarrow> real \<Rightarrow> real \<times> real" where
  "slotRange n imgs currPct =
     (if length imgs < n then (0, 0)
      else case filter (\<lambda>i. start (imgs ! i) < currPct) [0..<n] of
             [] \<Rightarrow> (0, 0)
           | j # js \<Rightarrow>
               (let i = last (j # js)
                in (start (imgs ! i), if Suc i = n then 1 else start (imgs ! Suc i))))"

text \<open>Some buffered time range contains the current percentage and the whole slot range.\<close>

definition bufferCovers :: "binding \<Rightarrow> player \<Rightarrow> real \<Rightarrow> bool" where
  "bufferCovers cfg s currPct =
     (let rng = slotRange (length (slides cfg)) (fallbackImages s) currPct
      in list_ex (\<lambda>r. fst r \<le> currPct \<and> currPct \<le> snd r \<and> fst r \<le> fst rng \<and> snd rng \<le> snd r)
           (buffered (video s)))"

subsection \<open>setSrc: the pixel size of the video\<close>

text \<open>
  The comparison \<open>s * 1.1 > winWidth\<close> is made in IEEE double precision, and it is modelled
  exactly. A size \<open>s\<close> is an integer after \<open>|0\<close> and so a double; the literal \<open>1.1\<close> is the
  double \<open>2476979795053773 / 2^51\<close>; the product is the exact product rounded to 53
  significant bits, ties to even. All values are kept as integers scaled by \<open>2^51\<close>.
\<close>

definition double_1_1 :: nat where
  "double_1_1 = 2476979795053773"

text \<open>The number of low bits a natural number loses when it is cut to 53 bits.\<close>

function dropBits :: "nat \<Rightarrow> nat" where
  "dropBits n = (if n < 2 ^ 53 then 0 else Suc (dropBits (n div 2)))"
  by pat_completeness auto
termination
  by (relation "measure id") auto

declare dropBits.simps [simp del]

text \<open>A natural number rounded to 53 significant bits, to nearest, ties to even.\<close>

definition roundDouble :: "nat \<Rightarrow> nat" where
  "roundDouble n =
     (let k = dropBits n; q = n div 2 ^ k; r = n mod 2 ^ k
      in if 2 * r > 2 ^ k \<or> (2 * r = 2 ^ k \<and> odd q) then (q + 1) * 2 ^ k else q * 2 ^ k)"

text \<open>\<open>2^51\<close> times the double \<open>s * 1.1\<close>.\<close>

definition times_1_1 :: "int \<Rightarrow> int" where
  "times_1_1 s =
     (if 0 \<le> s then int (roundDouble (nat s * double_1_1))
      else - int (roundDouble (nat (- s) * double_1_1)))"

text \<open>
  \<open>sizes\<close> is \<open>videoSizes[aspect]\<close> after the \<open>|0\<close> conversion, \<open>winWidth\<close> the viewport
  width, an integer. \<open>find\<close> returns the first size with \<open>s * 1.1 > winWidth\<close>; a falsy
  result (\<open>undefined\<close>, or the size 0) is replaced by the last entry, which is \<open>undefined\<close>
  (\<open>None\<close>) for an empty list.
\<close>

definition findSize :: "int list \<Rightarrow> int \<Rightarrow> int option" where
  "findSize sizes winWidth =
     List.find (\<lambda>s. times_1_1 s > winWidth * 2 ^ 51) sizes"

definition lastSize :: "int list \<Rightarrow> int option" where
  "lastSize sizes = (if sizes = [] then None else Some (last sizes))"

definition selectSize :: "int list \<Rightarrow> int \<Rightarrow> int option" where
  "selectSize sizes winWidth =
     (case findSize sizes winWidth of
        None \<Rightarrow> lastSize sizes
      | Some sz \<Rightarrow> if sz = 0 then lastSize sizes else Some sz)"

subsection \<open>The events of one binding\<close>

text \<open>
  What can happen to a binding after \<open>create\<close>: a progress event of the scene, the oldest
  pending \<open>jumpToTime\<close> timeout firing, a \<open>timeupdate\<close> of the video, a tick of the
  \<open>playThroughTimer\<close> interval, the browser changing the ready-state and the buffered
  ranges of the video, the image loader changing \<open>fallbackImages\<close>, and the \<open>onload\<close> of
  a still requested by \<open>updateStill\<close>.
\<close>

datatype player_event =
    Progress progress_event
  | Timeout
  | TimeUpdate
  | PlayThroughTick
  | Media nat "(real \<times> real) list"
  | Images "fallback_image list"
  | StillLoad

definition playThroughTick :: "player \<Rightarrow> player" where
  "playThroughTick s =
     (if playThroughTimer s \<and> el_readyState (video s) > 3 then
        s\<lparr>video := (video s)\<lparr>paused := True, currentTime := 0\<rparr>,
          playThroughTimer := False,
          readyState := True\<rparr>
      else s)"

definition stillOnload :: "player \<Rightarrow> player" where
  "stillOnload s =
     (case still_frame (stillImage s) of
        None \<Rightarrow> s
      | Some _ \<Rightarrow> s\<lparr>stillImage := (stillImage s)\<lparr>still_show := True, still_opacity := Some 1\<rparr>\<rparr>)"

definition onTimeUpdate :: "binding \<Rightarrow> player \<Rightarrow> player" where
  "onTimeUpdate cfg s = (if videoShouldUpdate s then adjustScrollPct cfg s else s)"

fun player_step :: "binding \<Rightarrow> player_event \<Rightarrow> player \<Rightarrow> error + player" where
  "player_step cfg (Progress e) s = Inr (onProgress cfg e s)"
| "player_step cfg Timeout s =
     (case timeouts s of
        [] \<Rightarrow> Inr s
      | pct # rest \<Rightarrow> jumpToTime cfg pct (s\<lparr>timeouts := rest\<rparr>))"
| "player_step cfg TimeUpdate s = Inr (onTimeUpdate cfg s)"
| "player_step cfg PlayThroughTick s = Inr (playThroughTick s)"
| "player_step cfg (Media n b) s =
     Inr (s\<lparr>video := (video s)\<lparr>el_readyState := n, buffered := b\<rparr>\<rparr>)"
| "player_step cfg (Images imgs) s = Inr (s\<lparr>fallbackImages := imgs\<rparr>)"
| "player_step cfg StillLoad s = Inr (stillOnload s)"

fun player_run :: "binding \<Rightarrow> player_event list \<Rightarrow> player \<Rightarrow> error + player" where
  "player_run cfg [] s = Inr s"
| "player_run cfg (ev # evs) s =
     (case player_step cfg ev s of
        Inl e \<Rightarrow> Inl e
      | Inr s' \<Rightarrow> player_run cfg evs s')"

text \<open>The browser never reports a playable ready-state in these events.\<close>

fun never_playable :: "player_event list \<Rightarrow> bool" where
  "never_playable [] = True"
| "never_playable (Media n b # evs) = (n \<le> 3 \<and> never_playable evs)"
| "never_playable (ev # evs) = never_playable evs"

subsection \<open>loadFallbackImages\<close>

text \<open>
  The image loader with a clock in milliseconds. \<open>requested\<close> and \<open>loaded\<close> log the index
  and the time of every \<open>img.src\<close> assignment and of every \<open>onload\<close> callback, oldest
  first; \<open>inflight\<close> holds the indices requested and not yet loaded; \<open>delayed\<close> the pending
  \<open>setTimeout (..., 100)\<close> callbacks as (due time, index to load).
\<close>

record loader =
  clock :: nat
  pushed :: "fallback_image list"
  requested :: "(nat \<times> nat) list"
  loaded :: "(nat \<times> nat) list"
  inflight :: "nat list"
  delayed :: "(nat \<times> nat) list"

definition loadDelay :: nat where
  "loadDelay = 100"

definition loadFallbackImages :: "nat \<Rightarrow> slide list \<Rightarrow> loader \<Rightarrow> loader" where
  "loadFallbackImages index imagesArr s =
     (if int index > int (length imagesArr) - 1 then s
      else s\<lparr>pushed := pushed s @ [\<lparr>start = percent (imagesArr ! index), g_show = False\<rparr>],
             requested := requested s @ [(index, clock s)],
             inflight := inflight s @ [index]\<rparr>)"

text \<open>\<open>img.onload\<close> of the image requested for \<open>index\<close>: the first image gets \<open>g-show\<close>,
  and the next call of \<open>loadFallbackImages\<close> is scheduled.\<close>

definition imgOnload :: "nat \<Rightarrow> loader \<Rightarrow> loader" where
  "imgOnload index s =
     s\<lparr>pushed := (if index = 0 \<and> pushed s \<noteq> []
                   then (pushed s)[0 := (pushed s ! 0)\<lparr>g_show := True\<rparr>] else pushed s),
       loaded := loaded s @ [(index, clock s)],
       inflight := remove1 index (inflight s),
       delayed := delayed s @ [(clock s + loadDelay, Suc index)]\<rparr>"

datatype loader_event = Advance nat | ImgLoad nat | TimerFire

text \<open>An event that cannot happen in the state gives \<open>None\<close>: an image loads only while
  its request is in flight, a timer fires only when it is due.\<close>

fun loader_step :: "slide list \<Rightarrow> loader_event \<Rightarrow> loader \<Rightarrow> loader option" where
  "loader_step imagesArr (Advance d) s = Some (s\<lparr>clock := clock s + d\<rparr>)"
| "loader_step imagesArr (ImgLoad index) s =
     (if index \<in> set (inflight s) then Some (imgOnload index s) else None)"
| "loader_step imagesArr TimerFire s =
     (case delayed s of
        [] \<Rightarrow> None
      | (due, index) # rest \<Rightarrow>
          if due \<le> clock s then Some (loadFallbackImages index imagesArr (s\<lparr>delayed := rest\<rparr>))
          else None)"

fun loader_run :: "slide list \<Rightarrow> loader_event list \<Rightarrow> loader \<Rightarrow> loader option" where
  "loader_run imagesArr [] s = Some s"
| "loader_run imagesArr (ev # evs) s =
     (case loader_step imagesArr ev s of
        None \<Rightarrow> None
      | Some s' \<Rightarrow> loader_run imagesArr evs s')"

text \<open>The state after \<open>create\<close> has called \<open>loadFallbackImages (0, obj.slides)\<close>.\<close>

definition loader_init :: "slide list \<Rightarrow> loader" where
  "loader_init imagesArr =
     loadFallbackImages 0 imagesArr
       \<lparr>clock = 0, pushed = [], requested = [], loaded = [], inflight = [], delayed = []\<rparr>"

subsection \<open>setSrc and loadVideosAsync\<close>

text \<open>
  One video object of \<open>init\<close>: the due time of its \<open>loadNextVideo\<close> timeout while that is
  pending, whether its \<open>canplaythrough\<close> listener is registered, whether its source has
  been set, and whether \<open>next\<close> has paused it.
\<close>

record vid =
  loadNextVideo :: "nat option"
  listening :: bool
  src_set :: bool
  vid_paused :: bool

record page =
  now :: nat
  vidsLoaded :: nat
  videos :: "vid list"

definition gracePeriod :: nat where
  "gracePeriod = 7500"

definition setSrc :: "nat \<Rightarrow> page \<Rightarrow> page" where
  "setSrc i s =
     s\<lparr>videos := (videos s)[i := \<lparr>loadNextVideo = Some (now s + gracePeriod),
                                   listening = True, src_set = True, vid_paused = False\<rparr>]\<rparr>"

definition loadVideosAsync :: "page \<Rightarrow> page" where
  "loadVideosAsync s =
     (let s1 = (if vidsLoaded s < length (videos s) then setSrc (vidsLoaded s) s else s)
      in s1\<lparr>vidsLoaded := Suc (vidsLoaded s1)\<rparr>)"

text \<open>The function \<open>next\<close> inside \<open>setSrc\<close> of video \<open>i\<close>.\<close>

definition next_video :: "nat \<Rightarrow> page \<Rightarrow> page" where
  "next_video i s =
     loadVideosAsync
       (s\<lparr>videos := (videos s)[i := (videos s ! i)\<lparr>loadNextVideo := None,
                                                     vid_paused := True,
                                                     listening := False\<rparr>]\<rparr>)"

datatype page_event = Wait nat | CanPlayThrough nat | LoadTimeout nat

fun page_step :: "page_event \<Rightarrow> page \<Rightarrow> page option" where
  "page_step (Wait d) s = Some (s\<lparr>now := now s + d\<rparr>)"
| "page_step (CanPlayThrough i) s =
     (if i < length (videos s) \<and> listening (videos s ! i) then Some (next_video i s) else None)"
| "page_step (LoadTimeout i) s =
     (if i < length (videos s) then
        (case loadNextVideo (videos s ! i) of
           None \<Rightarrow> None
         | Some due \<Rightarrow> if due \<le> now s then Some (next_video i s) else None)
      else None)"

subsection \<open>Auxiliary definitions and example states\<close>

text \<open>The slot range when only the slots below index \<open>i\<close> are considered: the state of
  the first loop of \<open>checkBuffered\<close> when \<open>fallbackLen\<close> has come down to \<open>i\<close>.\<close>

definition rangeUpTo :: "nat \<Rightarrow> fallback_image list \<Rightarrow> real \<Rightarrow> nat \<Rightarrow> real \<times> real" where
  "rangeUpTo n imgs currPct i =
     (case filter (\<lambda>i. start (imgs ! i) < currPct) [0..<i] of
        [] \<Rightarrow> (0, 0)
      | j # js \<Rightarrow>
          (let i = last (j # js)
           in (start (imgs ! i), if Suc i = n then 1 else start (imgs ! Suc i))))"

text \<open>No pause region contains the percentage strictly.\<close>

definition noPause :: "binding \<Rightarrow> real \<Rightarrow> bool" where
  "noPause cfg pct =
     (case pauses cfg of
        None \<Rightarrow> True
      | Some ps \<Rightarrow> list_all (\<lambda>r. \<not> (fst r < pct \<and> pct < snd r)) ps)"

text \<open>A binding of 600 frames at 30 frames per second over the scroll range 0.1 to 0.9, with
  two slides at 0.1 and 0.5, and the same binding with one pause region from 0.2 to 0.4.\<close>

definition demo_binding :: binding where
  "demo_binding =
     \<lparr>keyFrameLength = 3, frameRate = 30, frameLength = 600,
      startScroll = 1 / 10, endScroll = 9 / 10, pauses = None,
      slides = [\<lparr>percent = 1 / 10, fallbackdesktop = ''d1.jpg'', fallbackmobile = ''m1.jpg''\<rparr>,
                \<lparr>percent = 1 / 2, fallbackdesktop = ''d2.jpg'', fallbackmobile = ''m2.jpg''\<rparr>],
      single_frames = None\<rparr>"

definition demo_pause_binding :: binding where
  "demo_pause_binding = demo_binding\<lparr>pauses := Some [(1 / 5, 2 / 5)]\<rparr>"

text \<open>A player at scroll percentage 0.7 with both fallback images pushed, the video ready
  and buffered from 0 to 20 seconds, and the last frame 0.\<close>

definition demo_player :: player where
  "demo_player =
     \<lparr>scrollPct = 7 / 10, videoLastFrame = 0, videoShouldUpdate = False, readyState = True,
      fallbackImages = [\<lparr>start = 1 / 10, g_show = True\<rparr>, \<lparr>start = 1 / 2, g_show = False\<rparr>],
      video = \<lparr>currentTime = 0, opacity = None, visibility = Vis_unset,
               buffered = [(0, 20)], el_readyState = 4, paused = True\<rparr>,
      stillImage = \<lparr>still_show = False, still_opacity = None, still_frame = None\<rparr>,
      timeouts = [], playThroughTimer = False\<rparr>"

text \<open>The same player before the video became playable.\<close>

definition demo_waiting :: player where
  "demo_waiting =
     demo_player\<lparr>readyState := False, playThroughTimer := True,
                 video := (video demo_player)\<lparr>el_readyState := 0, buffered := []\<rparr>\<rparr>"



text \<open>A binding whose first slide is at scroll percentage 0, and its player right after
  \<open>create\<close> and the loading of both fallback images, the video not yet playable.\<close>

definition demo_zero_binding :: binding where
  "demo_zero_binding =
     demo_binding\<lparr>slides :=
       [\<lparr>percent = 0, fallbackdesktop = ''d1.jpg'', fallbackmobile = ''m1.jpg''\<rparr>,
        \<lparr>percent = 1 / 2, fallbackdesktop = ''d2.jpg'', fallbackmobile = ''m2.jpg''\<rparr>]\<rparr>"

definition demo_zero_player :: player where
  "demo_zero_player =
     demo_waiting\<lparr>scrollPct := 0,
                  fallbackImages := [\<lparr>start = 0, g_show = True\<rparr>,
                                     \<lparr>start = 1 / 2, g_show = False\<rparr>]\<rparr>"

subsection \<open>The invariant of the image loader\<close>

text \<open>Every request but the first came at least \<open>loadDelay\<close> after the load callback of the
  image before it.\<close>

definition ordered_after_load :: "loader \<Rightarrow> bool" where
  "ordered_after_load s =
     (\<forall>j. Suc j < length (requested s) \<longrightarrow>
        (\<exists>t. (j, t) \<in> set (loaded s) \<and> t + loadDelay \<le> snd (requested s ! Suc j)))"

text \<open>With \<open>k\<close> images requested so far, in slide order, the loader is in one of three
  phases: image \<open>k - 1\<close> is in flight and no timer is pending; or nothing is in flight and
  the one pending timer will request image \<open>k\<close>; or nothing is in flight or pending.\<close>

definition loader_inv :: "slide list \<Rightarrow> loader \<Rightarrow> bool" where
  "loader_inv imagesArr s =
     (let k = length (requested s) in
      map fst (requested s) = [0..<k] \<and> k \<le> length imagesArr \<and> length (pushed s) = k
      \<and> ordered_after_load s
      \<and> ((0 < k \<and> inflight s = [k - 1] \<and> delayed s = [] \<and> map fst (loaded s) = [0..<k - 1])
         \<or> (0 < k \<and> inflight s = [] \<and> map fst (loaded s) = [0..<k]
             \<and> (\<exists>t. delayed s = [(t + loadDelay, k)] \<and> (k - 1, t) \<in> set (loaded s)))
         \<or> (inflight s = [] \<and> delayed s = [] \<and> map fst (loaded s) = [0..<k])))"

subsection \<open>Unready players and the initial page\<close>

text \<open>The ready flag is unset and the media ready-state is below \<open>HAVE_ENOUGH_DATA\<close> (4).\<close>

definition not_ready :: "player \<Rightarrow> bool" where
  "not_ready s = (\<not> readyState s \<and> el_readyState (video s) \<le> 3)"

text \<open>\<open>init\<close> with \<open>n\<close> scrolling videos, after its call of \<open>loadVideosAsync ()\<close>.\<close>

definition page_init :: "nat \<Rightarrow> page" where
  "page_init n =
     loadVideosAsync
       \<lparr>now = 0, vidsLoaded = 0,
        videos = replicate n \<lparr>loadNextVideo = None, listening = False, src_set = False,
                               vid_paused = False\<rparr>\<rparr>"

section \<open>Properties\<close>

subsection \<open>Target frame\<close>

lemma jumpToPct_below: "p \<le> startScroll cfg \<Longrightarrow> p < endScroll cfg \<Longrightarrow> jumpToPct cfg p = 0"
  by (simp add: jumpToPct_def)

lemma jumpToPct_above: "endScroll cfg \<le> p \<Longrightarrow> jumpToPct cfg p = 1"
  by (simp add: jumpToPct_def)

lemma jumpToPct_between:
  assumes "startScroll cfg < p" and "p < endScroll cfg"
  shows "jumpToPct cfg p = (p - startScroll cfg) / (endScroll cfg - startScroll cfg)"
proof -
  let ?d = "endScroll cfg - startScroll cfg"
  have d: "0 < ?d" using assms by simp
  have "0 \<le> (p - startScroll cfg) / ?d"
    by (rule divide_nonneg_pos) (use assms d in simp_all)
  then have lo: "\<not> (p - startScroll cfg) / ?d < 0" by simp
  have "(p - startScroll cfg) / ?d < 1"
    using assms d by (simp add: divide_less_eq)
  then have hi: "\<not> (p - startScroll cfg) / ?d > 1" by simp
  show ?thesis
    unfolding jumpToPct_def Let_def using assms lo hi by simp
qed

text \<open>
  C1. With a scroll range \<open>startScroll < endScroll\<close>, the target frame computed for a scroll
  percentage \<open>p\<close> is \<open>frameLength\<close> times the normalised sub-progress clamped to [0, 1]:
  0 when \<open>p \<le> startScroll\<close>, \<open>frameLength * (p - startScroll) / (endScroll - startScroll)\<close>
  strictly between the two, and \<open>frameLength\<close> when \<open>p \<ge> endScroll\<close>. For frameRate 30,
  frameLength 600, startScroll 0.1, endScroll 0.9 and \<open>p = 0.5\<close> the target frame is 300.
  \<open>adjustScrollPct\<close> schedules \<open>jumpToTime\<close> with exactly this percentage.
\<close>

theorem target_frame_clamped:
  "(startScroll cfg < endScroll cfg \<longrightarrow>
      videoNextFrame cfg (jumpToPct cfg p) =
        real_of_int (frameLength cfg) *
          max 0 (min 1 ((p - startScroll cfg) / (endScroll cfg - startScroll cfg)))
      \<and> (p \<le> startScroll cfg \<longrightarrow> videoNextFrame cfg (jumpToPct cfg p) = 0)
      \<and> (startScroll cfg < p \<and> p < endScroll cfg \<longrightarrow>
            videoNextFrame cfg (jumpToPct cfg p) =
              real_of_int (frameLength cfg) *
                ((p - startScroll cfg) / (endScroll cfg - startScroll cfg)))
      \<and> (endScroll cfg \<le> p \<longrightarrow>
            videoNextFrame cfg (jumpToPct cfg p) = real_of_int (frameLength cfg)))
   \<and> timeouts (adjustScrollPct cfg s) = timeouts s @ [jumpToPct cfg (scrollPct s)]
   \<and> videoNextFrame
        \<lparr>keyFrameLength = 3, frameRate = 30, frameLength = 600, startScroll = 1 / 10,
         endScroll = 9 / 10, pauses = None, slides = [], single_frames = None\<rparr>
        (jumpToPct
           \<lparr>keyFrameLength = 3, frameRate = 30, frameLength = 600, startScroll = 1 / 10,
            endScroll = 9 / 10, pauses = None, slides = [], single_frames = None\<rparr>
           (1 / 2)) = 300"
proof -
  have general: "videoNextFrame cfg (jumpToPct cfg p) =
        real_of_int (frameLength cfg) *
          max 0 (min 1 ((p - startScroll cfg) / (endScroll cfg - startScroll cfg)))"
    if lt: "startScroll cfg < endScroll cfg"
  proof -
    let ?d = "endScroll cfg - startScroll cfg"
    let ?q = "(p - startScroll cfg) / ?d"
    have d: "0 < ?d" using lt by simp
    consider "p \<le> startScroll cfg" | "startScroll cfg < p" "p < endScroll cfg"
      | "endScroll cfg \<le> p" by linarith
    then show ?thesis
    proof cases
      case 1
      then have "?q \<le> 0" using d by (simp add: divide_le_0_iff)
      then have "max 0 (min 1 ?q) = 0" by simp
      moreover have "jumpToPct cfg p = 0" using 1 lt by (simp add: jumpToPct_below)
      ultimately show ?thesis by (simp add: videoNextFrame_def)
    next
      case 2
      then have "0 < ?q" "?q < 1" using d by simp_all
      then have "max 0 (min 1 ?q) = ?q" by simp
      moreover have "jumpToPct cfg p = ?q" using 2 by (rule jumpToPct_between)
      ultimately show ?thesis by (simp add: videoNextFrame_def)
    next
      case 3
      then have "1 \<le> ?q" using d by simp
      then have "max 0 (min 1 ?q) = 1" by simp
      moreover have "jumpToPct cfg p = 1" using 3 by (rule jumpToPct_above)
      ultimately show ?thesis by (simp add: videoNextFrame_def)
    qed
  qed
  have below: "videoNextFrame cfg (jumpToPct cfg p) = 0"
    if "startScroll cfg < endScroll cfg" "p \<le> startScroll cfg"
    using that by (simp add: jumpToPct_below videoNextFrame_def)
  have between: "videoNextFrame cfg (jumpToPct cfg p) =
        real_of_int (frameLength cfg) *
          ((p - startScroll cfg) / (endScroll cfg - startScroll cfg))"
    if "startScroll cfg < p" "p < endScroll cfg"
    using that by (simp add: jumpToPct_between videoNextFrame_def)
  have above: "videoNextFrame cfg (jumpToPct cfg p) = real_of_int (frameLength cfg)"
    if "endScroll cfg \<le> p"
    using that by (simp add: jumpToPct_above videoNextFrame_def)
  have sched: "timeouts (adjustScrollPct cfg s) = timeouts s @ [jumpToPct cfg (scrollPct s)]"
    by (simp add: adjustScrollPct_def)
  have example: "videoNextFrame
        \<lparr>keyFrameLength = 3, frameRate = 30, frameLength = 600, startScroll = 1 / 10,
         endScroll = 9 / 10, pauses = None, slides = [], single_frames = None\<rparr>
        (jumpToPct
           \<lparr>keyFrameLength = 3, frameRate = 30, frameLength = 600, startScroll = 1 / 10,
            endScroll = 9 / 10, pauses = None, slides = [], single_frames = None\<rparr>
           (1 / 2)) = 300"
    by (simp add: videoNextFrame_def jumpToPct_def Let_def)
  show ?thesis
    using general below between above sched example by blast
qed

theorem target_frame_clamped_witness:
  "startScroll
     \<lparr>keyFrameLength = 3, frameRate = 30, frameLength = 600, startScroll = 1 / 10,
      endScroll = 9 / 10, pauses = None, slides = [], single_frames = None\<rparr>
   < endScroll
     \<lparr>keyFrameLength = 3, frameRate = 30, frameLength = 600, startScroll = 1 / 10,
      endScroll = 9 / 10, pauses = None, slides = [], single_frames = None\<rparr>
   \<and> (1 / 20 :: real) \<le> 1 / 10
   \<and> videoNextFrame
       \<lparr>keyFrameLength = 3, frameRate = 30, frameLength = 600, startScroll = 1 / 10,
        endScroll = 9 / 10, pauses = None, slides = [], single_frames = None\<rparr>
       (jumpToPct
          \<lparr>keyFrameLength = 3, frameRate = 30, frameLength = 600, startScroll = 1 / 10,
           endScroll = 9 / 10, pauses = None, slides = [], single_frames = None\<rparr>
          (1 / 20)) = 0"
  using target_frame_clamped
    [of "\<lparr>keyFrameLength = 3, frameRate = 30, frameLength = 600, startScroll = 1 / 10,
          endScroll = 9 / 10, pauses = None, slides = [], single_frames = None\<rparr>" "1 / 20"]
  by simp

subsection \<open>The buffering check\<close>


lemma fallbackRange_no_error:
  "i \<le> n \<Longrightarrow> (i < n \<longrightarrow> i < length imgs) \<Longrightarrow> \<exists>r. fallbackRange n imgs c i = Inr r"
proof (induction i)
  case 0
  then show ?case by simp
next
  case (Suc i)
  show ?case
  proof (cases "length imgs \<le> i")
    case True
    then show ?thesis by simp
  next
    case False
    then have IH: "\<exists>r. fallbackRange n imgs c i = Inr r"
      using Suc.IH Suc.prems by simp
    have nxt: "int i \<noteq> int n - 1 \<Longrightarrow> i + 1 < length imgs"
      using Suc.prems by auto
    show ?thesis using False IH nxt by auto
  qed
qed

lemma fallbackRange_rangeUpTo:
  "i \<le> n \<Longrightarrow> n \<le> length imgs \<Longrightarrow> fallbackRange n imgs c i = Inr (rangeUpTo n imgs c i)"
proof (induction i)
  case 0
  then show ?case by (simp add: rangeUpTo_def)
next
  case (Suc i)
  then have IH: "fallbackRange n imgs c i = Inr (rangeUpTo n imgs c i)" by simp
  have in_range: "\<not> length imgs \<le> i" using Suc.prems by simp
  show ?case
  proof (cases "start (imgs ! i) < c")
    case True
    have f: "filter (\<lambda>i. start (imgs ! i) < c) [0..<Suc i]
             = filter (\<lambda>i. start (imgs ! i) < c) [0..<i] @ [i]"
      using True by simp
    obtain j js where jj: "filter (\<lambda>i. start (imgs ! i) < c) [0..<i] @ [i] = j # js"
      by (cases "filter (\<lambda>i. start (imgs ! i) < c) [0..<i] @ [i]") auto
    have l: "last (j # js) = i" using jj by (metis last_snoc)
    have r: "rangeUpTo n imgs c (Suc i) =
               (start (imgs ! i), if Suc i = n then 1 else start (imgs ! Suc i))"
      unfolding rangeUpTo_def f jj using l by (simp add: Let_def)
    have e: "(int i = int n - 1) = (Suc i = n)" by auto
    have nxt: "Suc i \<noteq> n \<Longrightarrow> i + 1 < length imgs" using Suc.prems by simp
    show ?thesis using True in_range r e nxt by simp
  next
    case False
    have f: "filter (\<lambda>i. start (imgs ! i) < c) [0..<Suc i]
             = filter (\<lambda>i. start (imgs ! i) < c) [0..<i]"
      using False by simp
    have "rangeUpTo n imgs c (Suc i) = rangeUpTo n imgs c i"
      unfolding rangeUpTo_def f ..
    then show ?thesis using False in_range IH by simp
  qed
qed

lemma fallbackRange_slotRange:
  "fallbackRange n imgs c n = Inr (slotRange n imgs c)"
proof (cases "length imgs < n")
  case True
  then obtain m where m: "n = Suc m" by (cases n) auto
  then have "length imgs \<le> m" using True by simp
  then show ?thesis using True m by (simp add: slotRange_def)
next
  case False
  then have "fallbackRange n imgs c n = Inr (rangeUpTo n imgs c n)"
    by (simp add: fallbackRange_rangeUpTo)
  moreover have "rangeUpTo n imgs c n = slotRange n imgs c"
    using False by (simp add: rangeUpTo_def slotRange_def)
  ultimately show ?thesis by simp
qed

lemma bufferedLoop_ex:
  "i \<le> length b \<Longrightarrow>
   bufferedLoop b c rng i =
     (\<exists>j<i. fst (b ! j) \<le> c \<and> c \<le> snd (b ! j) \<and> fst (b ! j) \<le> fst rng \<and> snd rng \<le> snd (b ! j))"
proof (induction i)
  case 0
  then show ?case by simp
next
  case (Suc i)
  then have IH: "bufferedLoop b c rng i =
     (\<exists>j<i. fst (b ! j) \<le> c \<and> c \<le> snd (b ! j) \<and> fst (b ! j) \<le> fst rng \<and> snd rng \<le> snd (b ! j))"
    by simp
  show ?case
    unfolding bufferedLoop.simps Let_def IH
    by (auto simp: less_Suc_eq)
qed

lemma bufferedLoop_list_ex:
  "bufferedLoop b c rng (length b) =
     list_ex (\<lambda>r. fst r \<le> c \<and> c \<le> snd r \<and> fst r \<le> fst rng \<and> snd rng \<le> snd r) b"
proof -
  let ?P = "\<lambda>r. fst r \<le> c \<and> c \<le> snd r \<and> fst r \<le> fst rng \<and> snd rng \<le> snd r"
  have "(\<exists>j<length b. ?P (b ! j)) = (\<exists>r\<in>set b. ?P r)"
    by (metis in_set_conv_nth)
  then show ?thesis by (simp add: bufferedLoop_ex list_ex_iff)
qed

lemma checkBuffered_eq:
  "checkBuffered cfg s f = Inr (readyState s \<and> bufferCovers cfg s (currPct_of cfg f))"
  by (simp add: checkBuffered_def bufferCovers_def Let_def fallbackRange_slotRange
      bufferedLoop_list_ex)

lemma checkForPauses_hideFallback:
  "checkForPauses cfg (hideFallback s) f pct = checkForPauses cfg s f pct"
  by (simp add: checkForPauses_def hideFallback_def split: option.split)

lemma hideFallback_fields:
  "fallbackImages (hideFallback s) = map (\<lambda>img. img\<lparr>g_show := False\<rparr>) (fallbackImages s)"
  "opacity (video (hideFallback s)) = Some 1"
  "visibility (video (hideFallback s)) = Vis_visible"
  "currentTime (video (hideFallback s)) = currentTime (video s)"
  "scrollPct (hideFallback s) = scrollPct s"
  "timeouts (hideFallback s) = timeouts s"
  "readyState (hideFallback s) = readyState s"
  by (simp_all add: hideFallback_def)

lemma showFallback_fields:
  "opacity (video (showFallback s)) = Some 0"
  "visibility (video (showFallback s)) = Vis_hidden"
  "currentTime (video (showFallback s)) = currentTime (video s)"
  "scrollPct (showFallback s) = scrollPct s"
  "timeouts (showFallback s) = timeouts s"
  "readyState (showFallback s) = readyState s"
  "videoLastFrame (showFallback s) = videoLastFrame s"
  by (simp_all add: showFallback_def)

lemma jumpToTime_fallback:
  assumes "\<not> (readyState s \<and> bufferCovers cfg s (currPct_of cfg (easedFrame cfg s pct)))"
  shows "jumpToTime cfg pct s = Inr ((showFallback s)\<lparr>videoLastFrame := easedFrame cfg s pct\<rparr>)"
proof -
  have "checkBuffered cfg s (easedFrame cfg s pct) = Inr False"
    using assms by (simp add: checkBuffered_eq)
  then show ?thesis by (simp add: jumpToTime_def Let_def)
qed

lemma jumpToTime_honoured:
  assumes "readyState s" and "bufferCovers cfg s (currPct_of cfg (easedFrame cfg s pct))"
  shows "\<exists>s'. jumpToTime cfg pct s = Inr s'
           \<and> fallbackImages s' = map (\<lambda>img. img\<lparr>g_show := False\<rparr>) (fallbackImages s)
           \<and> opacity (video s') = Some 1 \<and> visibility (video s') = Vis_visible
           \<and> currentTime (video s') =
               clampTime cfg (getTimeFromKeyframe cfg
                 (checkForPauses cfg s (easedFrame cfg s pct) pct))
           \<and> videoLastFrame s' = checkForPauses cfg s (easedFrame cfg s pct) pct
           \<and> scrollPct s' = scrollPct s \<and> timeouts s' = timeouts s
           \<and> readyState s' = readyState s"
proof -
  have "checkBuffered cfg s (easedFrame cfg s pct) = Inr True"
    using assms by (simp add: checkBuffered_eq)
  then show ?thesis
    by (simp add: jumpToTime_def Let_def checkForPauses_hideFallback
        updateStill_def hideFallback_fields split: option.split)
qed







subsection \<open>Pause regions\<close>

lemma pausesLoop_none:
  "k \<le> length ps \<Longrightarrow> \<forall>j<k. \<not> (fst (ps ! j) < pct \<and> pct < snd (ps ! j)) \<Longrightarrow>
   pausesLoop cfg lastFrame ps frameToUse pct k = frameToUse"
  by (induction k) auto

lemma pausesLoop_inside:
  "k \<le> length ps \<Longrightarrow> i < k \<Longrightarrow> fst (ps ! i) < pct \<Longrightarrow> pct < snd (ps ! i) \<Longrightarrow>
   \<forall>j. i < j \<and> j < k \<longrightarrow> \<not> (fst (ps ! j) < pct \<and> pct < snd (ps ! j)) \<Longrightarrow>
   pausesLoop cfg lastFrame ps frameToUse pct k =
     lastFrame + (real_of_int (frameLength cfg) * fst (ps ! i) - lastFrame) / 10"
proof (induction k)
  case 0
  then show ?case by simp
next
  case (Suc k)
  show ?case
  proof (cases "i = k")
    case True
    then show ?thesis using Suc.prems by (simp add: stepDivisor_def Let_def)
  next
    case False
    then have ik: "i < k" using Suc.prems by simp
    have nk: "\<not> (fst (ps ! k) < pct \<and> pct < snd (ps ! k))"
      using Suc.prems(5) ik by simp
    have "pausesLoop cfg lastFrame ps frameToUse pct k =
        lastFrame + (real_of_int (frameLength cfg) * fst (ps ! i) - lastFrame) / 10"
      using Suc.IH Suc.prems ik by simp
    then show ?thesis using nk by auto
  qed
qed

lemma checkForPauses_noPause:
  "noPause cfg pct \<Longrightarrow> checkForPauses cfg s frameToUse pct = frameToUse"
proof (cases "pauses cfg")
  case None
  then show ?thesis by (simp add: checkForPauses_def)
next
  case (Some ps)
  assume "noPause cfg pct"
  then have "\<forall>j<length ps. \<not> (fst (ps ! j) < pct \<and> pct < snd (ps ! j))"
    using Some by (simp add: noPause_def list_all_length)
  then show ?thesis using Some by (simp add: checkForPauses_def pausesLoop_none)
qed

lemma checkForPauses_inside:
  assumes "pauses cfg = Some ps" and "i < length ps"
    and "fst (ps ! i) < pct" and "pct < snd (ps ! i)"
    and "\<forall>j. i < j \<and> j < length ps \<longrightarrow> \<not> (fst (ps ! j) < pct \<and> pct < snd (ps ! j))"
  shows "checkForPauses cfg s frameToUse pct =
     videoLastFrame s + (real_of_int (frameLength cfg) * fst (ps ! i) - videoLastFrame s) / 10"
  using assms by (simp add: checkForPauses_def pausesLoop_inside)

text \<open>
  C5, as the code has it. The pause check applies to a percentage strictly inside a region
  (the last such region in the list when several contain it). It does not return the frame at
  the start \<open>a\<close> of the region itself but one step of the easing from the last frame toward
  it, \<open>videoLastFrame + (frameLength * a - videoLastFrame) / 10\<close>; once the last frame is
  the frame at \<open>a\<close>, the result stays there. At \<open>p = a\<close>, at \<open>p = b\<close> and outside every
  region the frame is returned unchanged.
\<close>

theorem pause_check_eases_to_region_start:
  "(pauses cfg = Some ps \<and> i < length ps \<and> fst (ps ! i) < pct \<and> pct < snd (ps ! i)
     \<and> (\<forall>j. i < j \<and> j < length ps \<longrightarrow> \<not> (fst (ps ! j) < pct \<and> pct < snd (ps ! j)))
    \<longrightarrow> checkForPauses cfg s frameToUse pct =
          videoLastFrame s
            + (real_of_int (frameLength cfg) * fst (ps ! i) - videoLastFrame s) / 10
        \<and> (videoLastFrame s = real_of_int (frameLength cfg) * fst (ps ! i)
             \<longrightarrow> checkForPauses cfg s frameToUse pct
                   = real_of_int (frameLength cfg) * fst (ps ! i)))
   \<and> (noPause cfg pct \<longrightarrow> checkForPauses cfg s frameToUse pct = frameToUse)"
proof -
  have inside: "checkForPauses cfg s frameToUse pct =
          videoLastFrame s
            + (real_of_int (frameLength cfg) * fst (ps ! i) - videoLastFrame s) / 10"
    if "pauses cfg = Some ps \<and> i < length ps \<and> fst (ps ! i) < pct \<and> pct < snd (ps ! i)
     \<and> (\<forall>j. i < j \<and> j < length ps \<longrightarrow> \<not> (fst (ps ! j) < pct \<and> pct < snd (ps ! j)))"
    using that by (intro checkForPauses_inside) simp_all
  have held: "checkForPauses cfg s frameToUse pct = real_of_int (frameLength cfg) * fst (ps ! i)"
    if "checkForPauses cfg s frameToUse pct =
          videoLastFrame s
            + (real_of_int (frameLength cfg) * fst (ps ! i) - videoLastFrame s) / 10"
      "videoLastFrame s = real_of_int (frameLength cfg) * fst (ps ! i)"
    using that by simp
  have outside: "checkForPauses cfg s frameToUse pct = frameToUse" if "noPause cfg pct"
    using that by (rule checkForPauses_noPause)
  show ?thesis using inside held outside by blast
qed

lemma demo_pause_facts:
  "pauses demo_pause_binding = Some [(1 / 5, 2 / 5)]"
  "frameLength demo_pause_binding = 600"
  "frameRate demo_pause_binding = 30"
  "slides demo_pause_binding = slides demo_binding"
  by (simp_all add: demo_pause_binding_def demo_binding_def)

theorem pause_check_eases_to_region_start_witness:
  "pauses demo_pause_binding = Some [(1 / 5, 2 / 5)]
   \<and> checkForPauses demo_pause_binding demo_player 18 (3 / 10) = 12
   \<and> noPause demo_pause_binding (2 / 5)
   \<and> checkForPauses demo_pause_binding demo_player 24 (2 / 5) = 24"
proof -
  let ?ps = "[(1 / 5, 2 / 5)] :: (real \<times> real) list"
  have last0: "videoLastFrame demo_player = 0" by (simp add: demo_player_def)
  have np: "noPause demo_pause_binding (2 / 5)"
    by (simp add: noPause_def demo_pause_facts)
  have hyp: "pauses demo_pause_binding = Some ?ps
      \<and> 0 < length ?ps \<and> fst (?ps ! 0) < 3 / 10 \<and> 3 / 10 < snd (?ps ! 0)
      \<and> (\<forall>j. 0 < j \<and> j < length ?ps \<longrightarrow>
            \<not> (fst (?ps ! j) < 3 / 10 \<and> 3 / 10 < snd (?ps ! j)))"
    by (auto simp: demo_pause_facts)
  have "checkForPauses demo_pause_binding demo_player 18 (3 / 10) =
          videoLastFrame demo_player
            + (real_of_int (frameLength demo_pause_binding) * fst (?ps ! 0)
               - videoLastFrame demo_player) / 10"
    using pause_check_eases_to_region_start
      [of demo_pause_binding ?ps 0 "3 / 10" demo_player 18,
       THEN conjunct1, THEN mp, OF hyp]
    by (rule conjunct1)
  then have a: "checkForPauses demo_pause_binding demo_player 18 (3 / 10) = 12"
    by (simp add: demo_pause_facts last0)
  have b: "checkForPauses demo_pause_binding demo_player 24 (2 / 5) = 24"
    using pause_check_eases_to_region_start
      [of demo_pause_binding ?ps 0 "2 / 5" demo_player 24,
       THEN conjunct2, THEN mp, OF np] .
  show ?thesis using a b np by (simp add: demo_pause_facts)
qed

text \<open>The claim as stated fails: with the region [0.2, 0.4], 600 frames, the last frame 0 and
  \<open>p = 0.3\<close> the pause check returns frame 12, while the frame at 0.2 is 120.\<close>

theorem pause_check_counterexample:
  "checkForPauses demo_pause_binding demo_player 18 (3 / 10) = 12
   \<and> real_of_int (frameLength demo_pause_binding) * (1 / 5) = 120
   \<and> checkForPauses demo_pause_binding demo_player 18 (3 / 10)
       \<noteq> real_of_int (frameLength demo_pause_binding) * (1 / 5)"
proof -
  have "checkForPauses demo_pause_binding demo_player 18 (3 / 10) = 12"
    by (simp add: checkForPauses_def demo_pause_facts demo_player_def stepDivisor_def Let_def)
  then show ?thesis by (simp add: demo_pause_facts)
qed

subsection \<open>The frame that is seeked\<close>

lemma easedFrame_clamp:
  assumes "0 \<le> frameLength cfg"
  shows "easedFrame cfg s pct =
     max 0 (min (real_of_int (frameLength cfg))
       (videoLastFrame s
          + (real_of_int (frameLength cfg) * pct - videoLastFrame s) / 10))"
  using assms by (simp add: easedFrame_def videoNextFrame_def stepDivisor_def Let_def)

lemma easedFrame_range:
  assumes "0 \<le> frameLength cfg"
  shows "0 \<le> easedFrame cfg s pct" and "easedFrame cfg s pct \<le> real_of_int (frameLength cfg)"
  using assms by (simp_all add: easedFrame_def Let_def)

lemma easedFrame_tenth:
  assumes "0 \<le> videoLastFrame s" and "videoLastFrame s \<le> real_of_int (frameLength cfg)"
    and "0 \<le> pct" and "pct \<le> 1"
  shows "easedFrame cfg s pct - videoLastFrame s =
     (real_of_int (frameLength cfg) * pct - videoLastFrame s) / 10"
proof -
  let ?L = "real_of_int (frameLength cfg)" and ?v = "videoLastFrame s"
  have L: "0 \<le> ?L" using assms by linarith
  have lo: "0 \<le> ?L * pct" using L assms by simp
  have hi: "?L * pct \<le> ?L" using L assms by (simp add: mult_left_le)
  have step: "0 \<le> v + (x - v) / 10 \<and> v + (x - v) / 10 \<le> l"
    if "0 \<le> v" "v \<le> l" "0 \<le> x" "x \<le> l" for v x l :: real
    using that by (simp add: field_simps)
  have "0 \<le> ?v + (?L * pct - ?v) / 10" using step[of ?v ?L "?L * pct"] lo hi assms by blast
  moreover have "?v + (?L * pct - ?v) / 10 \<le> ?L"
    using step[of ?v ?L "?L * pct"] lo hi assms by blast
  ultimately show ?thesis
    by (simp add: easedFrame_def videoNextFrame_def stepDivisor_def Let_def)
qed

lemma clampTime_frame:
  assumes "wf_binding cfg" and "0 \<le> f" and "f \<le> real_of_int (frameLength cfg)"
  shows "clampTime cfg (getTimeFromKeyframe cfg f) = f / real_of_int (frameRate cfg)"
proof -
  let ?r = "real_of_int (frameRate cfg)"
  have r: "1 \<le> ?r" using assms(1) by (simp add: wf_binding_def)
  have "f * 1 \<le> f * ?r" using r assms(2) by (intro mult_left_mono) simp_all
  then have "f / ?r \<le> f" using r by (simp add: divide_le_eq)
  moreover have "0 \<le> f / ?r" using r assms by simp
  ultimately show ?thesis
    using assms(3) by (simp add: clampTime_def getTimeFromKeyframe_def)
qed


lemma demo_player_facts:
  "videoLastFrame demo_player = 0"
  "readyState demo_player"
  "scrollPct demo_player = 7 / 10"
  "buffered (video demo_player) = [(0, 20)]"
  "fallbackImages demo_player = [\<lparr>start = 1 / 10, g_show = True\<rparr>, \<lparr>start = 1 / 2, g_show = False\<rparr>]"
  "length (slides demo_binding) = 2"
  "frameLength demo_binding = 600"
  "frameRate demo_binding = 30"
  by (simp_all add: demo_player_def demo_binding_def)

lemma demo_pause_honoured:
  "easedFrame demo_pause_binding demo_player (3 / 10) = 18"
  "bufferCovers demo_pause_binding demo_player
     (currPct_of demo_pause_binding (easedFrame demo_pause_binding demo_player (3 / 10)))"
proof -
  show e: "easedFrame demo_pause_binding demo_player (3 / 10) = 18"
    by (simp add: easedFrame_def videoNextFrame_def stepDivisor_def Let_def demo_pause_facts
        demo_player_facts)
  have c: "currPct_of demo_pause_binding 18 = 3 / 100"
    by (simp add: currPct_of_def Let_def demo_pause_facts)
  have "slotRange 2 (fallbackImages demo_player) (3 / 100) = (0, 0)"
    by (simp add: slotRange_def demo_player_facts upt_rec)
  then have "bufferCovers demo_pause_binding demo_player (3 / 100)"
    by (simp add: bufferCovers_def demo_pause_facts demo_player_facts)
  then show "bufferCovers demo_pause_binding demo_player
     (currPct_of demo_pause_binding (easedFrame demo_pause_binding demo_player (3 / 10)))"
    unfolding e c .
qed

lemma demo_honoured:
  "easedFrame demo_binding demo_player (3 / 10) = 18"
  "bufferCovers demo_binding demo_player
     (currPct_of demo_binding (easedFrame demo_binding demo_player (3 / 10)))"
proof -
  show e: "easedFrame demo_binding demo_player (3 / 10) = 18"
    by (simp add: easedFrame_def videoNextFrame_def stepDivisor_def Let_def demo_player_facts)
  have c: "currPct_of demo_binding 18 = 3 / 100"
    by (simp add: currPct_of_def Let_def demo_player_facts)
  have "slotRange 2 (fallbackImages demo_player) (3 / 100) = (0, 0)"
    by (simp add: slotRange_def demo_player_facts upt_rec)
  then have "bufferCovers demo_binding demo_player (3 / 100)"
    by (simp add: bufferCovers_def demo_player_facts)
  then show "bufferCovers demo_binding demo_player
     (currPct_of demo_binding (easedFrame demo_binding demo_player (3 / 10)))"
    unfolding e c .
qed

text \<open>
  C9, as the code has it. On an honoured update of a binding with positive frame rate and
  frame count, the frame \<open>jumpToTime\<close> checks is \<open>videoLastFrame + (targetFrame -
  videoLastFrame) / 10\<close> clamped to [0, frameLength]. When the percentage lies strictly
  inside no pause region, that frame is the one seeked: it becomes \<open>videoLastFrame\<close> and
  \<open>video.currentTime\<close> is the frame divided by \<open>frameRate\<close>; with the last frame and the
  target inside the video it is one tenth of the way to the target. Strictly inside a pause
  region the frame seeked is instead one step toward the frame at the start of the region.
\<close>

theorem honoured_update_seeks_eased_frame:
  "wf_binding cfg \<and> readyState s
     \<and> bufferCovers cfg s (currPct_of cfg (easedFrame cfg s pct)) \<longrightarrow>
     easedFrame cfg s pct =
       max 0 (min (real_of_int (frameLength cfg))
         (videoLastFrame s + (videoNextFrame cfg pct - videoLastFrame s) / stepDivisor))
     \<and> stepDivisor = 10
     \<and> (noPause cfg pct \<longrightarrow>
           (\<exists>s'. jumpToTime cfg pct s = Inr s'
              \<and> videoLastFrame s' = easedFrame cfg s pct
              \<and> currentTime (video s') = easedFrame cfg s pct / real_of_int (frameRate cfg)))
     \<and> (0 \<le> videoLastFrame s \<and> videoLastFrame s \<le> real_of_int (frameLength cfg)
          \<and> 0 \<le> pct \<and> pct \<le> 1 \<longrightarrow>
           easedFrame cfg s pct - videoLastFrame s =
             (videoNextFrame cfg pct - videoLastFrame s) / 10)
     \<and> (pauses cfg = Some ps \<and> i < length ps \<and> fst (ps ! i) < pct \<and> pct < snd (ps ! i)
          \<and> (\<forall>j. i < j \<and> j < length ps \<longrightarrow> \<not> (fst (ps ! j) < pct \<and> pct < snd (ps ! j)))
         \<longrightarrow>
           (\<exists>s'. jumpToTime cfg pct s = Inr s'
              \<and> videoLastFrame s' =
                  videoLastFrame s
                    + (real_of_int (frameLength cfg) * fst (ps ! i) - videoLastFrame s) / 10
              \<and> currentTime (video s') =
                  clampTime cfg
                    ((videoLastFrame s
                       + (real_of_int (frameLength cfg) * fst (ps ! i) - videoLastFrame s) / 10)
                     / real_of_int (frameRate cfg))))"
proof (intro impI)
  assume h: "wf_binding cfg \<and> readyState s
     \<and> bufferCovers cfg s (currPct_of cfg (easedFrame cfg s pct))"
  then have wf: "wf_binding cfg" and fl: "0 \<le> frameLength cfg"
    by (simp_all add: wf_binding_def)
  obtain s' where s': "jumpToTime cfg pct s = Inr s'"
      "currentTime (video s') =
         clampTime cfg (getTimeFromKeyframe cfg
           (checkForPauses cfg s (easedFrame cfg s pct) pct))"
      "videoLastFrame s' = checkForPauses cfg s (easedFrame cfg s pct) pct"
    using h jumpToTime_honoured[of s cfg pct] by blast
  have formula: "easedFrame cfg s pct =
       max 0 (min (real_of_int (frameLength cfg))
         (videoLastFrame s + (videoNextFrame cfg pct - videoLastFrame s) / stepDivisor))"
    using easedFrame_clamp[OF fl] by (simp add: videoNextFrame_def stepDivisor_def)
  have plain: "\<exists>s'. jumpToTime cfg pct s = Inr s'
              \<and> videoLastFrame s' = easedFrame cfg s pct
              \<and> currentTime (video s') = easedFrame cfg s pct / real_of_int (frameRate cfg)"
    if np: "noPause cfg pct"
  proof -
    have "checkForPauses cfg s (easedFrame cfg s pct) pct = easedFrame cfg s pct"
      using np by (rule checkForPauses_noPause)
    then show ?thesis
      using s' clampTime_frame[OF wf easedFrame_range[OF fl]] by simp
  qed
  have tenth: "easedFrame cfg s pct - videoLastFrame s =
             (videoNextFrame cfg pct - videoLastFrame s) / 10"
    if "0 \<le> videoLastFrame s \<and> videoLastFrame s \<le> real_of_int (frameLength cfg)
          \<and> 0 \<le> pct \<and> pct \<le> 1"
    using that easedFrame_tenth[of s cfg pct] by (simp add: videoNextFrame_def)
  have paused: "\<exists>s'. jumpToTime cfg pct s = Inr s'
              \<and> videoLastFrame s' =
                  videoLastFrame s
                    + (real_of_int (frameLength cfg) * fst (ps ! i) - videoLastFrame s) / 10
              \<and> currentTime (video s') =
                  clampTime cfg
                    ((videoLastFrame s
                       + (real_of_int (frameLength cfg) * fst (ps ! i) - videoLastFrame s) / 10)
                     / real_of_int (frameRate cfg))"
    if p: "pauses cfg = Some ps \<and> i < length ps \<and> fst (ps ! i) < pct \<and> pct < snd (ps ! i)
          \<and> (\<forall>j. i < j \<and> j < length ps \<longrightarrow> \<not> (fst (ps ! j) < pct \<and> pct < snd (ps ! j)))"
  proof -
    have "checkForPauses cfg s (easedFrame cfg s pct) pct =
        videoLastFrame s
          + (real_of_int (frameLength cfg) * fst (ps ! i) - videoLastFrame s) / 10"
      using p by (intro checkForPauses_inside) simp_all
    then show ?thesis using s' by (simp add: getTimeFromKeyframe_def)
  qed
  show "easedFrame cfg s pct =
       max 0 (min (real_of_int (frameLength cfg))
         (videoLastFrame s + (videoNextFrame cfg pct - videoLastFrame s) / stepDivisor))
     \<and> stepDivisor = 10
     \<and> (noPause cfg pct \<longrightarrow>
           (\<exists>s'. jumpToTime cfg pct s = Inr s'
              \<and> videoLastFrame s' = easedFrame cfg s pct
              \<and> currentTime (video s') = easedFrame cfg s pct / real_of_int (frameRate cfg)))
     \<and> (0 \<le> videoLastFrame s \<and> videoLastFrame s \<le> real_of_int (frameLength cfg)
          \<and> 0 \<le> pct \<and> pct \<le> 1 \<longrightarrow>
           easedFrame cfg s pct - videoLastFrame s =
             (videoNextFrame cfg pct - videoLastFrame s) / 10)
     \<and> (pauses cfg = Some ps \<and> i < length ps \<and> fst (ps ! i) < pct \<and> pct < snd (ps ! i)
          \<and> (\<forall>j. i < j \<and> j < length ps \<longrightarrow> \<not> (fst (ps ! j) < pct \<and> pct < snd (ps ! j)))
         \<longrightarrow>
           (\<exists>s'. jumpToTime cfg pct s = Inr s'
              \<and> videoLastFrame s' =
                  videoLastFrame s
                    + (real_of_int (frameLength cfg) * fst (ps ! i) - videoLastFrame s) / 10
              \<and> currentTime (video s') =
                  clampTime cfg
                    ((videoLastFrame s
                       + (real_of_int (frameLength cfg) * fst (ps ! i) - videoLastFrame s) / 10)
                     / real_of_int (frameRate cfg))))"
    using formula plain tenth paused by (simp add: stepDivisor_def)
qed

theorem honoured_update_seeks_eased_frame_witness:
  "wf_binding demo_binding \<and> readyState demo_player
   \<and> bufferCovers demo_binding demo_player
        (currPct_of demo_binding (easedFrame demo_binding demo_player (3 / 10)))
   \<and> noPause demo_binding (3 / 10)
   \<and> easedFrame demo_binding demo_player (3 / 10) = 18
   \<and> (case jumpToTime demo_binding (3 / 10) demo_player of
         Inl e \<Rightarrow> None
       | Inr s' \<Rightarrow> Some (videoLastFrame s', currentTime (video s'))) = Some (18, 3 / 5)"
proof -
  have wf: "wf_binding demo_binding" by (simp add: wf_binding_def demo_player_facts)
  have np: "noPause demo_binding (3 / 10)" by (simp add: noPause_def demo_binding_def)
  have h: "wf_binding demo_binding \<and> readyState demo_player
     \<and> bufferCovers demo_binding demo_player
          (currPct_of demo_binding (easedFrame demo_binding demo_player (3 / 10)))"
    using wf demo_honoured(2) by (simp add: demo_player_facts)
  note T = honoured_update_seeks_eased_frame
      [of demo_binding demo_player "3 / 10", THEN mp, OF h]
  have "\<exists>s'. jumpToTime demo_binding (3 / 10) demo_player = Inr s'
      \<and> videoLastFrame s' = easedFrame demo_binding demo_player (3 / 10)
      \<and> currentTime (video s')
          = easedFrame demo_binding demo_player (3 / 10) / real_of_int (frameRate demo_binding)"
    using T[THEN conjunct2, THEN conjunct2, THEN conjunct1, THEN mp, OF np] .
  then obtain s' where "jumpToTime demo_binding (3 / 10) demo_player = Inr s'"
      "videoLastFrame s' = 18" "currentTime (video s') = 3 / 5"
    by (auto simp: demo_honoured(1) demo_player_facts)
  then show ?thesis using wf np demo_honoured by (simp add: demo_player_facts)
qed

text \<open>The claim as stated fails inside a pause region: with the region [0.2, 0.4], the last
  frame 0 and the percentage 0.3 the eased frame is 18, but the update is honoured with
  frame 12 and \<open>video.currentTime = 12 / 30\<close>, not \<open>18 / 30\<close>.\<close>

theorem honoured_update_counterexample:
  "readyState demo_player
   \<and> bufferCovers demo_pause_binding demo_player
        (currPct_of demo_pause_binding (easedFrame demo_pause_binding demo_player (3 / 10)))
   \<and> easedFrame demo_pause_binding demo_player (3 / 10) = 18
   \<and> (case jumpToTime demo_pause_binding (3 / 10) demo_player of
         Inl e \<Rightarrow> None
       | Inr s' \<Rightarrow> Some (videoLastFrame s', currentTime (video s'))) = Some (12, 2 / 5)
   \<and> easedFrame demo_pause_binding demo_player (3 / 10)
        / real_of_int (frameRate demo_pause_binding) = 3 / 5"
proof -
  obtain s' where s': "jumpToTime demo_pause_binding (3 / 10) demo_player = Inr s'"
      "currentTime (video s') =
         clampTime demo_pause_binding (getTimeFromKeyframe demo_pause_binding
           (checkForPauses demo_pause_binding demo_player
              (easedFrame demo_pause_binding demo_player (3 / 10)) (3 / 10)))"
      "videoLastFrame s' =
         checkForPauses demo_pause_binding demo_player
           (easedFrame demo_pause_binding demo_player (3 / 10)) (3 / 10)"
    using jumpToTime_honoured[of demo_player demo_pause_binding "3 / 10"]
      demo_pause_honoured(2) demo_player_facts(2) by blast
  have p: "checkForPauses demo_pause_binding demo_player 18 (3 / 10) = 12"
    by (simp add: checkForPauses_def demo_pause_facts demo_player_facts stepDivisor_def Let_def)
  have t: "clampTime demo_pause_binding (getTimeFromKeyframe demo_pause_binding 12) = 2 / 5"
    by (simp add: clampTime_def getTimeFromKeyframe_def demo_pause_facts)
  have "videoLastFrame s' = 12" "currentTime (video s') = 2 / 5"
    using s' p t by (simp_all add: demo_pause_honoured(1))
  then show ?thesis
    using s'(1) demo_pause_honoured by (simp add: demo_pause_facts demo_player_facts)
qed

text \<open>
  C10. For a binding with positive frame rate and frame count, every call of
  \<open>jumpToTime\<close> returns, and ends in exactly one of two states: the
  buffering check succeeded and \<open>hideFallback\<close> ran, so the video has opacity 1 and
  visibility visible and no fallback image carries \<open>g-show\<close>; or the check failed and
  \<open>showFallback\<close> ran, so the video has opacity 0 and visibility hidden. The video is never
  left visible together with a shown fallback image.
\<close>

theorem jumpToTime_visibility:
  "wf_binding cfg \<longrightarrow> (\<exists>s'. jumpToTime cfg pct s = Inr s'
     \<and> ((checkBuffered cfg s (easedFrame cfg s pct) = Inr True
          \<and> opacity (video s') = Some 1 \<and> visibility (video s') = Vis_visible
          \<and> list_all (\<lambda>img. \<not> g_show img) (fallbackImages s'))
        \<noteq> (checkBuffered cfg s (easedFrame cfg s pct) = Inr False
          \<and> fallbackImages s' = fallbackImages (showFallback s)
          \<and> opacity (video s') = Some 0 \<and> visibility (video s') = Vis_hidden))
     \<and> \<not> (visibility (video s') = Vis_visible \<and> list_ex g_show (fallbackImages s')))"
proof (cases "readyState s \<and> bufferCovers cfg s (currPct_of cfg (easedFrame cfg s pct))")
  case True
  then obtain s' where s': "jumpToTime cfg pct s = Inr s'"
      "fallbackImages s' = map (\<lambda>img. img\<lparr>g_show := False\<rparr>) (fallbackImages s)"
      "opacity (video s') = Some 1" "visibility (video s') = Vis_visible"
    using jumpToTime_honoured[of s cfg pct] by blast
  have hidden: "list_all (\<lambda>img. \<not> g_show img) (fallbackImages s')"
    using s'(2) by (simp add: list_all_iff)
  then have "\<not> list_ex g_show (fallbackImages s')"
    by (simp add: list_all_iff list_ex_iff)
  moreover have "checkBuffered cfg s (easedFrame cfg s pct) = Inr True"
    using True by (simp add: checkBuffered_eq)
  ultimately show ?thesis using s' hidden by simp
next
  case False
  have j: "jumpToTime cfg pct s = Inr ((showFallback s)\<lparr>videoLastFrame := easedFrame cfg s pct\<rparr>)"
    using False by (rule jumpToTime_fallback)
  have "checkBuffered cfg s (easedFrame cfg s pct) = Inr False"
    using False by (simp add: checkBuffered_eq)
  then show ?thesis using j by (simp add: showFallback_fields)
qed

theorem jumpToTime_visibility_witness:
  "wf_binding demo_binding
   \<and> (case jumpToTime demo_binding (3 / 10) demo_player of
      Inl e \<Rightarrow> None
    | Inr s' \<Rightarrow> Some (opacity (video s'), visibility (video s'), map g_show (fallbackImages s')))
     = Some (Some 1, Vis_visible, [False, False])
   \<and> (case jumpToTime demo_binding (3 / 10) demo_waiting of
      Inl e \<Rightarrow> None
    | Inr s' \<Rightarrow> Some (opacity (video s'), visibility (video s'), map g_show (fallbackImages s')))
     = Some (Some 0, Vis_hidden, [True, True])"
proof -
  have wf: "wf_binding demo_binding" by (simp add: wf_binding_def demo_player_facts)
  have b: "checkBuffered demo_binding demo_player (easedFrame demo_binding demo_player (3 / 10))
      = Inr True"
    using demo_honoured(2) by (simp add: checkBuffered_eq demo_player_facts)
  have w: "checkBuffered demo_binding demo_waiting (easedFrame demo_binding demo_waiting (3 / 10))
      = Inr False"
    by (simp add: checkBuffered_def demo_waiting_def)
  have len: "length (fallbackImages s') = 2 \<Longrightarrow> list_all (\<lambda>img. \<not> g_show img) (fallbackImages s')
      \<Longrightarrow> map g_show (fallbackImages s') = [False, False]" for s'
    by (cases "fallbackImages s'"; cases "tl (fallbackImages s')") auto
  obtain s1 where s1: "jumpToTime demo_binding (3 / 10) demo_player = Inr s1"
      "opacity (video s1) = Some 1" "visibility (video s1) = Vis_visible"
      "list_all (\<lambda>img. \<not> g_show img) (fallbackImages s1)"
    using jumpToTime_visibility[of demo_binding "3 / 10" demo_player] b wf by auto
  obtain s2 where s2: "jumpToTime demo_binding (3 / 10) demo_waiting = Inr s2"
      "opacity (video s2) = Some 0" "visibility (video s2) = Vis_hidden"
      "fallbackImages s2 = fallbackImages (showFallback demo_waiting)"
    using jumpToTime_visibility[of demo_binding "3 / 10" demo_waiting] w wf by auto
  have l1: "length (fallbackImages s1) = 2"
    using s1(1) jumpToTime_honoured[of demo_player demo_binding "3 / 10"] demo_honoured(2)
    by (auto simp: demo_player_facts)
  have g2: "map g_show (fallbackImages (showFallback demo_waiting)) = [True, True]"
    by (simp add: showFallback_def demo_waiting_def demo_player_def enumerate_eq_zip upt_rec)
  show ?thesis using wf s1 s2 len[OF l1 s1(4)] g2 by simp
qed

subsection \<open>The fallback images that are shown\<close>

lemma showFallback_length:
  "length (fallbackImages (showFallback s)) = length (fallbackImages s)"
  by (simp add: showFallback_def)

lemma showFallback_nth:
  assumes "i < length (fallbackImages s)"
  shows "fallbackImages (showFallback s) ! i =
     (fallbackImages s ! i)\<lparr>g_show :=
        (start (fallbackImages s ! i) \<le> scrollPct s \<and> 0 < scrollPct s
         \<or> scrollPct s < start (fallbackImages s ! i) \<and> i = 0)\<rparr>"
  using assms by (simp add: showFallback_def nth_enumerate_eq)

text \<open>
  C4, as the code has it. \<open>showFallback\<close> keeps the list of fallback images and their start
  percentages, hides the video, and gives the class \<open>g-show\<close> to every image whose start
  does not exceed the scroll percentage, provided that percentage is positive, and to the
  first image when the scroll percentage is below its start; every other image loses the
  class. With starts in ascending order the image with the greatest start not exceeding the
  scroll percentage is therefore shown together with all the images before it.
\<close>

theorem showFallback_marks_reached_images:
  "length (fallbackImages (showFallback s)) = length (fallbackImages s)
   \<and> (\<forall>i<length (fallbackImages s).
         start (fallbackImages (showFallback s) ! i) = start (fallbackImages s ! i)
         \<and> g_show (fallbackImages (showFallback s) ! i) =
             (start (fallbackImages s ! i) \<le> scrollPct s \<and> 0 < scrollPct s
              \<or> scrollPct s < start (fallbackImages s ! i) \<and> i = 0))
   \<and> opacity (video (showFallback s)) = Some 0
   \<and> visibility (video (showFallback s)) = Vis_hidden
   \<and> (sorted (map start (fallbackImages s)) \<and> 0 < scrollPct s
        \<and> i < length (fallbackImages s) \<and> start (fallbackImages s ! i) \<le> scrollPct s
       \<longrightarrow> (\<forall>j\<le>i. g_show (fallbackImages (showFallback s) ! j)))"
proof -
  have each: "\<forall>i<length (fallbackImages s).
         start (fallbackImages (showFallback s) ! i) = start (fallbackImages s ! i)
         \<and> g_show (fallbackImages (showFallback s) ! i) =
             (start (fallbackImages s ! i) \<le> scrollPct s \<and> 0 < scrollPct s
              \<or> scrollPct s < start (fallbackImages s ! i) \<and> i = 0)"
    by (simp add: showFallback_nth)
  have stacked: "\<forall>j\<le>i. g_show (fallbackImages (showFallback s) ! j)"
    if h: "sorted (map start (fallbackImages s)) \<and> 0 < scrollPct s
        \<and> i < length (fallbackImages s) \<and> start (fallbackImages s ! i) \<le> scrollPct s"
  proof (intro allI impI)
    fix j assume ji: "j \<le> i"
    then have jl: "j < length (fallbackImages s)" using h by simp
    have "map start (fallbackImages s) ! j \<le> map start (fallbackImages s) ! i"
      using h ji by (intro sorted_nth_mono) simp_all
    then have "start (fallbackImages s ! j) \<le> scrollPct s" using h jl by simp
    then show "g_show (fallbackImages (showFallback s) ! j)"
      using h jl by (simp add: showFallback_nth)
  qed
  show ?thesis
    using each stacked by (simp add: showFallback_length showFallback_fields)
qed

theorem showFallback_marks_reached_images_witness:
  "sorted (map start (fallbackImages demo_player)) \<and> 0 < scrollPct demo_player
   \<and> (1::nat) < length (fallbackImages demo_player)
   \<and> start (fallbackImages demo_player ! 1) \<le> scrollPct demo_player
   \<and> g_show (fallbackImages (showFallback demo_player) ! 0)
   \<and> g_show (fallbackImages (showFallback demo_player) ! 1)"
proof -
  have h: "sorted (map start (fallbackImages demo_player)) \<and> 0 < scrollPct demo_player
        \<and> 1 < length (fallbackImages demo_player)
        \<and> start (fallbackImages demo_player ! 1) \<le> scrollPct demo_player"
    by (simp add: demo_player_facts)
  have "\<forall>j\<le>1. g_show (fallbackImages (showFallback demo_player) ! j)"
    using showFallback_marks_reached_images [of demo_player 1,
        THEN conjunct2, THEN conjunct2, THEN conjunct2, THEN conjunct2, THEN mp, OF h] .
  then have "g_show (fallbackImages (showFallback demo_player) ! 0)"
    "g_show (fallbackImages (showFallback demo_player) ! 1)"
    by simp_all
  then show ?thesis using h by simp
qed

text \<open>The claim as stated fails: at scroll percentage 0.7 with fallback images starting at
  0.1 and 0.5, both images are shown, not only the one starting at 0.5.\<close>

theorem showFallback_counterexample:
  "scrollPct demo_player = 7 / 10
   \<and> map start (fallbackImages demo_player) = [1 / 10, 1 / 2]
   \<and> map g_show (fallbackImages (showFallback demo_player)) = [True, True]"
  by (simp add: showFallback_def demo_player_def enumerate_eq_zip upt_rec)

subsection \<open>The progress handler\<close>

lemma onProgress_same:
  assumes "scrollPct s = progress e"
  shows "onProgress cfg e s =
     s\<lparr>videoShouldUpdate :=
         (if ev_state e = BEFORE \<or> ev_state e = AFTER then False else videoShouldUpdate s)\<rparr>"
  using assms by (simp add: onProgress_def Let_def)

lemma onProgress_scrollPct: "scrollPct (onProgress cfg e s) = progress e"
  by (simp add: onProgress_def adjustScrollPct_def Let_def)

text \<open>
  C8. A progress event whose value equals the stored scroll percentage changes nothing but,
  for the states BEFORE and AFTER, the flag \<open>videoShouldUpdate\<close>: the stored percentage, the
  video, the fallback images, the still image, the last frame and the pending
  \<open>jumpToTime\<close> calls stay as they are. After any progress event the stored percentage is
  its value, so a second event with the same value is such an event, and repeating the very
  same event leaves the whole state unchanged.
\<close>

theorem progress_handler_idempotent:
  "onProgress cfg e (onProgress cfg e s) = onProgress cfg e s
   \<and> (progress e' = progress e \<longrightarrow>
        scrollPct (onProgress cfg e' (onProgress cfg e s)) = scrollPct (onProgress cfg e s)
        \<and> video (onProgress cfg e' (onProgress cfg e s)) = video (onProgress cfg e s)
        \<and> fallbackImages (onProgress cfg e' (onProgress cfg e s))
            = fallbackImages (onProgress cfg e s)
        \<and> stillImage (onProgress cfg e' (onProgress cfg e s)) = stillImage (onProgress cfg e s)
        \<and> videoLastFrame (onProgress cfg e' (onProgress cfg e s))
            = videoLastFrame (onProgress cfg e s)
        \<and> timeouts (onProgress cfg e' (onProgress cfg e s)) = timeouts (onProgress cfg e s))
   \<and> (scrollPct s = progress e \<longrightarrow>
        onProgress cfg e s =
          s\<lparr>videoShouldUpdate :=
              (if ev_state e = BEFORE \<or> ev_state e = AFTER then False
               else videoShouldUpdate s)\<rparr>)
   \<and> (timeouts (onProgress cfg e s) \<noteq> timeouts s \<longrightarrow> scrollPct s \<noteq> progress e)"
proof -
  have second: "onProgress cfg e' (onProgress cfg e s) =
      (onProgress cfg e s)\<lparr>videoShouldUpdate :=
         (if ev_state e' = BEFORE \<or> ev_state e' = AFTER then False
          else videoShouldUpdate (onProgress cfg e s))\<rparr>"
    if "progress e' = progress e" for e'
    using that by (intro onProgress_same) (simp add: onProgress_scrollPct)
  have flag: "ev_state e = BEFORE \<or> ev_state e = AFTER \<Longrightarrow>
      \<not> videoShouldUpdate (onProgress cfg e s)"
    by (auto simp: onProgress_def adjustScrollPct_def Let_def)
  have idem: "onProgress cfg e (onProgress cfg e s) = onProgress cfg e s"
    using second[of e] flag by (cases "ev_state e = BEFORE \<or> ev_state e = AFTER") auto
  have same: "onProgress cfg e s =
          s\<lparr>videoShouldUpdate :=
              (if ev_state e = BEFORE \<or> ev_state e = AFTER then False
               else videoShouldUpdate s)\<rparr>"
    if "scrollPct s = progress e"
    using that by (rule onProgress_same)
  have only: "scrollPct s \<noteq> progress e" if "timeouts (onProgress cfg e s) \<noteq> timeouts s"
    using that same by (cases "scrollPct s = progress e") auto
  show ?thesis
    using idem same only second[of e'] by (auto simp: onProgress_scrollPct)
qed

theorem progress_handler_idempotent_witness:
  "progress \<lparr>ev_state = AFTER, progress = 1 / 2\<rparr> = progress \<lparr>ev_state = DURING, progress = 1 / 2\<rparr>
   \<and> timeouts (onProgress demo_binding \<lparr>ev_state = DURING, progress = 1 / 2\<rparr> demo_player) = [1 / 2]
   \<and> timeouts (onProgress demo_binding \<lparr>ev_state = AFTER, progress = 1 / 2\<rparr>
        (onProgress demo_binding \<lparr>ev_state = DURING, progress = 1 / 2\<rparr> demo_player)) = [1 / 2]
   \<and> scrollPct (onProgress demo_binding \<lparr>ev_state = AFTER, progress = 1 / 2\<rparr>
        (onProgress demo_binding \<lparr>ev_state = DURING, progress = 1 / 2\<rparr> demo_player)) = 1 / 2"
proof -
  let ?e = "\<lparr>ev_state = DURING, progress = 1 / 2\<rparr>" and ?e' = "\<lparr>ev_state = AFTER, progress = 1 / 2\<rparr>"
  have first: "timeouts (onProgress demo_binding ?e demo_player) = [1 / 2]"
    "scrollPct (onProgress demo_binding ?e demo_player) = 1 / 2"
    by (simp_all add: onProgress_def adjustScrollPct_def jumpToPct_def Let_def demo_player_def
        demo_binding_def)
  have eq: "progress ?e' = progress ?e" by simp
  note T = progress_handler_idempotent [of demo_binding ?e demo_player ?e',
      THEN conjunct2, THEN conjunct1, THEN mp, OF eq]
  show ?thesis using T first by simp
qed


subsection \<open>The pixel size chosen by setSrc\<close>

lemma sorted_last_Max: "sorted xs \<Longrightarrow> xs \<noteq> [] \<Longrightarrow> last xs = Max (set xs)"
  for xs :: "int list"
proof (induction xs)
  case Nil
  then show ?case by simp
next
  case (Cons a xs)
  show ?case
  proof (cases "xs = []")
    case True
    then show ?thesis by simp
  next
    case False
    have le: "a \<le> Max (set xs)"
      using Cons.prems(1) False by (simp add: Max_ge_iff) (meson last_in_set)
    have "last (a # xs) = Max (set xs)" using Cons False by simp
    also have "\<dots> = Max (set (a # xs))" using False le by (simp add: max_def)
    finally show ?thesis .
  qed
qed

lemma find_sorted_Min:
  "sorted xs \<Longrightarrow> List.find P xs = Some x \<Longrightarrow> x = Min {y \<in> set xs. P y}"
  for xs :: "int list"
proof (induction xs)
  case Nil
  then show ?case by simp
next
  case (Cons a xs)
  show ?case
  proof (cases "P a")
    case True
    then have xa: "x = a" using Cons.prems by simp
    have "Min {y \<in> set (a # xs). P y} = a"
    proof (rule Min_eqI)
      show "finite {y \<in> set (a # xs). P y}" by simp
      show "\<And>y. y \<in> {y \<in> set (a # xs). P y} \<Longrightarrow> a \<le> y"
        using Cons.prems(1) by auto
      show "a \<in> {y \<in> set (a # xs). P y}" using True by simp
    qed
    then show ?thesis using xa by simp
  next
    case False
    then have f: "List.find P xs = Some x" using Cons.prems by simp
    have s: "sorted xs" using Cons.prems by simp
    have "{y \<in> set (a # xs). P y} = {y \<in> set xs. P y}" using False by auto
    then show ?thesis using Cons.IH[OF s f] by simp
  qed
qed

lemma dropBits_bound: "n div 2 ^ dropBits n < 2 ^ 53"
proof (induction n rule: dropBits.induct)
  case (1 n)
  show ?case
  proof (cases "n < 2 ^ 53")
    case True
    then show ?thesis by (simp add: dropBits.simps[of n])
  next
    case False
    then have "dropBits n = Suc (dropBits (n div 2))" by (simp add: dropBits.simps[of n])
    moreover have "n div 2 div 2 ^ dropBits (n div 2) < 2 ^ 53" using 1 False by simp
    ultimately show ?thesis by (simp add: div_mult2_eq)
  qed
qed

lemma dropBits_large: "0 < dropBits n \<Longrightarrow> 2 ^ 52 * 2 ^ dropBits n \<le> n"
proof (induction n rule: dropBits.induct)
  case (1 n)
  show ?case
  proof (cases "n < 2 ^ 53")
    case True
    then show ?thesis using 1 by (simp add: dropBits.simps[of n])
  next
    case False
    then have k: "dropBits n = Suc (dropBits (n div 2))" by (simp add: dropBits.simps[of n])
    define j where "j = dropBits (n div 2)"
    show ?thesis
    proof (cases "0 < j")
      case True
      then have "2 ^ 52 * 2 ^ j \<le> n div 2" using 1 False by (simp add: j_def)
      then have "2 * (2 ^ 52 * 2 ^ j) \<le> n" by simp
      then have "2 ^ 52 * 2 ^ Suc j \<le> n" by (simp only: power_Suc mult.left_commute)
      then show ?thesis unfolding k j_def .
    next
      case False
      then have "dropBits n = Suc 0" using k by (simp add: j_def)
      moreover have "(2::nat) ^ 52 * 2 ^ Suc 0 \<le> n" using \<open>\<not> n < 2 ^ 53\<close> by simp
      ultimately show ?thesis by (simp only:)
    qed
  qed
qed

lemma roundDouble_cases:
  obtains q r where "n = q * 2 ^ dropBits n + r" "r < 2 ^ dropBits n"
    "2 ^ dropBits n \<le> 2 * r" "roundDouble n = (q + 1) * 2 ^ dropBits n"
  | q r where "n = q * 2 ^ dropBits n + r" "2 * r \<le> 2 ^ dropBits n"
    "roundDouble n = q * 2 ^ dropBits n"
proof -
  define k where "k = dropBits n"
  define q where "q = n div 2 ^ k"
  define r where "r = n mod 2 ^ k"
  have n: "n = q * 2 ^ k + r" unfolding q_def r_def by (rule div_mult_mod_eq[symmetric])
  have r: "r < 2 ^ k" by (simp add: r_def)
  show ?thesis
  proof (cases "2 * r > 2 ^ k \<or> (2 * r = 2 ^ k \<and> odd q)")
    case True
    then have "roundDouble n = (q + 1) * 2 ^ k"
      by (simp add: roundDouble_def Let_def k_def q_def r_def)
    moreover have "2 ^ k \<le> 2 * r" using True by auto
    ultimately show ?thesis using that(1) n r unfolding k_def by blast
  next
    case False
    then have "roundDouble n = q * 2 ^ k"
      by (simp add: roundDouble_def Let_def k_def q_def r_def)
    moreover have "2 * r \<le> 2 ^ k" using False by auto
    ultimately show ?thesis using that(2) n unfolding k_def by blast
  qed
qed

lemma roundDouble_error:
  "2 * roundDouble n \<le> 2 * n + 2 ^ dropBits n" "2 * n \<le> 2 * roundDouble n + 2 ^ dropBits n"
proof -
  define p :: nat where "p = 2 ^ dropBits n"
  have "2 * roundDouble n \<le> 2 * n + p \<and> 2 * n \<le> 2 * roundDouble n + p"
  proof (rule roundDouble_cases[of n])
    fix q r assume "n = q * 2 ^ dropBits n + r" "r < 2 ^ dropBits n"
      "2 ^ dropBits n \<le> 2 * r" "roundDouble n = (q + 1) * 2 ^ dropBits n"
    then have "n = q * p + r" "r < p" "p \<le> 2 * r" "roundDouble n = q * p + p"
      by (simp_all add: p_def)
    then show ?thesis by linarith
  next
    fix q r assume "n = q * 2 ^ dropBits n + r" "2 * r \<le> 2 ^ dropBits n"
      "roundDouble n = q * 2 ^ dropBits n"
    then have "n = q * p + r" "2 * r \<le> p" "roundDouble n = q * p"
      by (simp_all add: p_def)
    then show ?thesis by linarith
  qed
  then show "2 * roundDouble n \<le> 2 * n + 2 ^ dropBits n"
    "2 * n \<le> 2 * roundDouble n + 2 ^ dropBits n"
    by (simp_all add: p_def)
qed

lemma dropBits_small:
  assumes "n < 2 ^ 83"
  shows "(2::nat) ^ dropBits n < 2 ^ 31"
proof (cases "0 < dropBits n")
  case True
  have "(2::nat) ^ 52 * 2 ^ dropBits n < 2 ^ 83"
    using dropBits_large[OF True] assms by (rule le_less_trans)
  also have "(2::nat) ^ 83 = 2 ^ 52 * 2 ^ 31" by simp
  finally show ?thesis by (simp only: mult_less_cancel1)
next
  case False
  then have "dropBits n = 0" by simp
  then show ?thesis by (simp only: power_0) simp
qed

lemma times_1_1_exceeds:
  assumes w: "0 \<le> w" and s: "s < 2 ^ 31" and tie: "11 * s \<noteq> 10 * w"
  shows "(times_1_1 s > w * 2 ^ 51) = (10 * w < 11 * s)"
proof (cases "0 \<le> s")
  case False
  then have "times_1_1 s \<le> 0" by (simp add: times_1_1_def)
  moreover have "0 \<le> w * 2 ^ 51" using w by simp
  ultimately have "\<not> times_1_1 s > w * 2 ^ 51" by linarith
  moreover have "\<not> 10 * w < 11 * s" using False w by linarith
  ultimately show ?thesis by blast
next
  case True
  define n where "n = nat s * double_1_1"
  define V where "V = int (roundDouble n)"
  define p where "p = int (2 ^ dropBits n)"
  have N: "int n = s * 2476979795053773" using True by (simp add: n_def double_1_1_def)
  have "nat s < 2 ^ 31" using s True by (simp add: nat_less_iff)
  then have "nat s * double_1_1 < 2 ^ 31 * 2 ^ 52"
    by (intro mult_strict_mono) (simp_all add: double_1_1_def)
  then have "n < 2 ^ 83" by (simp add: n_def)
  then have "(2::nat) ^ dropBits n < 2 ^ 31" by (rule dropBits_small)
  then have p: "p < 2147483648" unfolding p_def by (simp only: of_nat_less_iff[symmetric, where 'a=int]) simp
  have "int (2 * roundDouble n) \<le> int (2 * n + 2 ^ dropBits n)"
    "int (2 * n) \<le> int (2 * roundDouble n + 2 ^ dropBits n)"
    using roundDouble_error[of n] by (simp_all only: of_nat_le_iff)
  then have e: "2 * V \<le> 2 * int n + p" "2 * int n \<le> 2 * V + p"
    by (simp_all add: V_def p_def)
  have t: "times_1_1 s = V" using True by (simp add: times_1_1_def V_def n_def)
  have s': "s < 2147483648" using s by simp
  have c: "w * 2 ^ 51 = w * 2251799813685248" by simp
  show ?thesis
  proof (cases "10 * w < 11 * s")
    case True
    then have "V > w * 2251799813685248" using N e p s' by linarith
    then show ?thesis using True t c by simp
  next
    case False
    then have "11 * s < 10 * w" using tie by linarith
    then have "V < w * 2251799813685248" using N e p s' by linarith
    then show ?thesis using False t c by simp
  qed
qed

lemma findSize_exact:
  assumes w: "0 \<le> w" and sizes: "\<forall>s\<in>set sizes. s < 2 ^ 31 \<and> 11 * s \<noteq> 10 * w"
  shows "findSize sizes w = List.find (\<lambda>s. 10 * w < 11 * s) sizes"
  unfolding findSize_def
proof (rule find_cong)
  show "sizes = sizes" ..
  fix s assume "s \<in> set sizes"
  then have "s < 2 ^ 31" "11 * s \<noteq> 10 * w" using sizes by blast+
  then show "(times_1_1 s > w * 2 ^ 51) = (10 * w < 11 * s)"
    using w by (intro times_1_1_exceeds)
qed

lemma times_1_1_values:
  "times_1_1 640 = 1585267068834414592"
  "times_1_1 800 = 1981583836043018496"
  "times_1_1 1000 = 2476979795053772800"
  "times_1_1 1600 = 3963167672086036992"
  by (simp_all add: times_1_1_def roundDouble_def double_1_1_def Let_def dropBits.simps)

lemma selectSize_examples:
  "selectSize [640, 800] 700 = Some 640"
  "selectSize [640, 800] 1000 = Some 800"
  "selectSize [1600, 1920] 1760 = Some 1600"
  "selectSize [800, 1000] 880 = Some 800"
  "selectSize [1000, 2000] 1100 = Some 2000"
  by (simp_all add: selectSize_def findSize_def lastSize_def times_1_1_def roundDouble_def
      double_1_1_def Let_def dropBits.simps)

lemma selectSize_first:
  assumes "0 \<le> w" and "sizes \<noteq> []"
    and "\<forall>s\<in>set sizes. s < 2 ^ 31 \<and> 11 * s \<noteq> 10 * w"
  shows "selectSize sizes w =
     Some (case List.find (\<lambda>s. 10 * w < 11 * s) sizes of None \<Rightarrow> last sizes | Some s \<Rightarrow> s)"
proof (cases "List.find (\<lambda>s. 10 * w < 11 * s) sizes")
  case None
  then show ?thesis
    using assms by (simp add: selectSize_def findSize_exact lastSize_def)
next
  case (Some s)
  then have "10 * w < 11 * s" by (auto simp: find_Some_iff)
  then have "s \<noteq> 0" using assms(1) by auto
  then show ?thesis using Some assms by (simp add: selectSize_def findSize_exact)
qed

text \<open>
  C2, as the code has it. For a non-empty list of sizes below \<open>2^31\<close> and a viewport width
  that is not negative and is no exact tie (\<open>11 * s = 10 * winWidth\<close> for no size \<open>s\<close> of the
  list), \<open>setSrc\<close> takes the first size \<open>s\<close> of the list with \<open>s * 1.1 > winWidth\<close>, and the
  last size of the list when there is none. For a list in ascending order this is the
  smallest size whose 110 percent exceed the viewport width, and the largest size when there
  is none. With the sizes 640 and 800 the viewport width 700 selects 640 (704 exceeds 700),
  and the width 1000 selects 800. At an exact tie the rounding of the double product decides:
  \<open>1600 * 1.1\<close> and \<open>800 * 1.1\<close> round above 1760 and 880, so these widths select 1600 and
  800, while \<open>1000 * 1.1\<close> is exactly 1100, so the width 1100 passes over the size 1000.
\<close>

theorem size_selection_first_adequate:
  "(0 \<le> winWidth \<and> sizes \<noteq> []
      \<and> (\<forall>s\<in>set sizes. s < 2 ^ 31 \<and> 11 * s \<noteq> 10 * winWidth) \<longrightarrow>
      selectSize sizes winWidth =
        Some (case List.find (\<lambda>s. 10 * winWidth < 11 * s) sizes of
                None \<Rightarrow> last sizes
              | Some s \<Rightarrow> s)
      \<and> (sorted sizes \<longrightarrow>
            selectSize sizes winWidth =
              Some (if \<exists>s\<in>set sizes. 10 * winWidth < 11 * s
                    then Min {s \<in> set sizes. 10 * winWidth < 11 * s}
                    else Max (set sizes))))
   \<and> selectSize [640, 800] 700 = Some 640
   \<and> selectSize [640, 800] 1000 = Some 800
   \<and> selectSize [1600, 1920] 1760 = Some 1600
   \<and> selectSize [800, 1000] 880 = Some 800
   \<and> selectSize [1000, 2000] 1100 = Some 2000"
proof -
  have first: "selectSize sizes winWidth =
        Some (case List.find (\<lambda>s. 10 * winWidth < 11 * s) sizes of
                None \<Rightarrow> last sizes
              | Some s \<Rightarrow> s)"
    if "0 \<le> winWidth \<and> sizes \<noteq> []
      \<and> (\<forall>s\<in>set sizes. s < 2 ^ 31 \<and> 11 * s \<noteq> 10 * winWidth)"
    using that by (intro selectSize_first) blast+
  have ascending: "selectSize sizes winWidth =
              Some (if \<exists>s\<in>set sizes. 10 * winWidth < 11 * s
                    then Min {s \<in> set sizes. 10 * winWidth < 11 * s}
                    else Max (set sizes))"
    if h: "0 \<le> winWidth \<and> sizes \<noteq> []
      \<and> (\<forall>s\<in>set sizes. s < 2 ^ 31 \<and> 11 * s \<noteq> 10 * winWidth)" and s: "sorted sizes"
  proof (cases "List.find (\<lambda>s. 10 * winWidth < 11 * s) sizes")
    case None
    then have "\<not> (\<exists>s\<in>set sizes. 10 * winWidth < 11 * s)"
      by (simp add: find_None_iff)
    moreover have "last sizes = Max (set sizes)"
      using s h by (intro sorted_last_Max) simp_all
    ultimately show ?thesis using first[OF h] None by simp
  next
    case (Some x)
    then have "x \<in> set sizes" "10 * winWidth < 11 * x"
      by (auto simp: find_Some_iff)
    then have "\<exists>s\<in>set sizes. 10 * winWidth < 11 * s" by blast
    moreover have "x = Min {s \<in> set sizes. 10 * winWidth < 11 * s}"
      using s Some by (rule find_sorted_Min)
    ultimately show ?thesis using first[OF h] Some by simp
  qed
  show ?thesis using first ascending selectSize_examples by blast
qed

theorem size_selection_first_adequate_witness:
  "(0::int) \<le> 700 \<and> [640, 800] \<noteq> ([] :: int list) \<and> sorted [640, 800 :: int]
   \<and> list_all (\<lambda>s. s < 2 ^ 31 \<and> 11 * s \<noteq> 10 * 700) [640, 800 :: int]
   \<and> (\<exists>s\<in>set [640, 800 :: int]. 10 * 700 < 11 * s)
   \<and> selectSize [640, 800] 700 = Some (Min {s \<in> set [640, 800]. 10 * 700 < 11 * s})
   \<and> Min {s \<in> set [640, 800 :: int]. 10 * 700 < 11 * s} = 640"
proof -
  have h: "(0::int) \<le> 700 \<and> [640, 800] \<noteq> ([] :: int list)
      \<and> (\<forall>s\<in>set [640, 800 :: int]. s < 2 ^ 31 \<and> 11 * s \<noteq> 10 * 700)" by simp
  have s: "sorted [640, 800 :: int]" by simp
  have e: "\<exists>s\<in>set [640, 800 :: int]. 10 * 700 < 11 * s" by simp
  have "selectSize [640, 800] 700 =
      Some (if \<exists>s\<in>set [640, 800 :: int]. 10 * 700 < 11 * s
            then Min {s \<in> set [640, 800]. 10 * 700 < 11 * s}
            else Max (set [640, 800]))"
    using size_selection_first_adequate [of 700 "[640, 800]", THEN conjunct1, THEN mp, OF h,
        THEN conjunct2, THEN mp, OF s] .
  then have sel: "selectSize [640, 800] 700 = Some (Min {s \<in> set [640, 800]. 10 * 700 < 11 * s})"
    using e by simp
  have "{s \<in> set [640, 800 :: int]. 10 * 700 < 11 * s} = {640, 800}" by auto
  then have m: "Min {s \<in> set [640, 800 :: int]. 10 * 700 < 11 * s} = 640" by simp
  have l: "list_all (\<lambda>s. s < 2 ^ 31 \<and> 11 * s \<noteq> 10 * 700) [640, 800 :: int]" by simp
  show ?thesis using h s e sel m l by blast
qed

text \<open>The claim as stated fails on its own example: with the sizes 640 and 800 and the
  viewport width 700, \<open>setSrc\<close> selects 640, because \<open>640 * 1.1 = 704 > 700\<close>; the smallest
  size that exceeds 700 is 800.\<close>

theorem size_selection_counterexample:
  "selectSize [640, 800] 700 = Some 640
   \<and> real_of_int 640 * 1.1 > real_of_int 700
   \<and> \<not> (640::int) > 700
   \<and> selectSize [640, 800] 700 \<noteq> Some 800"
  by (simp add: selectSize_examples)

subsection \<open>Sequential loading of the fallback images\<close>

lemma loader_inv_init: "loader_inv imagesArr (loader_init imagesArr)"
  by (cases imagesArr)
     (simp_all add: loader_inv_def loader_init_def loadFallbackImages_def ordered_after_load_def)

lemma ordered_after_load_cong:
  "requested s' = requested s \<Longrightarrow> set (loaded s) \<subseteq> set (loaded s') \<Longrightarrow>
   ordered_after_load s \<Longrightarrow> ordered_after_load s'"
  unfolding ordered_after_load_def by (metis subsetD)

lemma loader_inv_advance:
  "loader_inv imagesArr s \<Longrightarrow> loader_inv imagesArr (s\<lparr>clock := clock s + d\<rparr>)"
  by (simp add: loader_inv_def ordered_after_load_def Let_def)

lemma loader_inv_onload:
  assumes inv: "loader_inv imagesArr s" and i: "index \<in> set (inflight s)"
  shows "loader_inv imagesArr (imgOnload index s)"
proof -
  let ?k = "length (requested s)"
  from inv i have ph: "0 < ?k" "inflight s = [?k - 1]" "delayed s = []"
      "map fst (loaded s) = [0..<?k - 1]"
    by (auto simp: loader_inv_def Let_def)
  then have idx: "index = ?k - 1" using i by simp
  have base: "map fst (requested s) = [0..<?k]" "?k \<le> length imagesArr"
      "length (pushed s) = ?k" "ordered_after_load s"
    using inv by (simp_all add: loader_inv_def Let_def)
  let ?s' = "imgOnload index s"
  have r: "requested ?s' = requested s" by (simp add: imgOnload_def)
  have l: "loaded ?s' = loaded s @ [(?k - 1, clock s)]" by (simp add: imgOnload_def idx)
  have "map fst (loaded ?s') = [0..<?k - 1] @ [?k - 1]" using l ph(4) by simp
  also have "\<dots> = [0..<?k]" using ph(1) by (metis Suc_pred' upt_Suc_append zero_le)
  finally have lm: "map fst (loaded ?s') = [0..<?k]" .
  have d: "delayed ?s' = [(clock s + loadDelay, ?k)]"
    using ph(1,3) by (simp add: imgOnload_def idx)
  have f: "inflight ?s' = []" using ph(2) by (simp add: imgOnload_def idx)
  have p: "length (pushed ?s') = ?k" using base(3) by (simp add: imgOnload_def)
  have o: "ordered_after_load ?s'"
    using base(4) by (rule ordered_after_load_cong[rotated 2]) (auto simp: r l)
  have mem: "(?k - 1, clock s) \<in> set (loaded ?s')" using l by simp
  show ?thesis
    unfolding loader_inv_def Let_def r
    using base(1,2) p o ph(1) f lm d mem by auto
qed

lemma loader_inv_timer:
  assumes inv: "loader_inv imagesArr s" and d: "delayed s = (due, index) # rest"
    and due: "due \<le> clock s"
  shows "loader_inv imagesArr (loadFallbackImages index imagesArr (s\<lparr>delayed := rest\<rparr>))"
proof -
  let ?k = "length (requested s)"
  from inv d obtain t where ph: "0 < ?k" "inflight s = []" "map fst (loaded s) = [0..<?k]"
      "delayed s = [(t + loadDelay, ?k)]" "(?k - 1, t) \<in> set (loaded s)"
    by (auto simp: loader_inv_def Let_def)
  then have idx: "index = ?k" "rest = []" "due = t + loadDelay" using d by simp_all
  have base: "map fst (requested s) = [0..<?k]" "?k \<le> length imagesArr"
      "length (pushed s) = ?k" "ordered_after_load s"
    using inv by (simp_all add: loader_inv_def Let_def)
  show ?thesis
  proof (cases "int ?k > int (length imagesArr) - 1")
    case True
    then have "loadFallbackImages index imagesArr (s\<lparr>delayed := rest\<rparr>) = s\<lparr>delayed := []\<rparr>"
      by (simp add: loadFallbackImages_def idx)
    moreover have "loader_inv imagesArr (s\<lparr>delayed := []\<rparr>)"
      using base ph by (simp add: loader_inv_def Let_def ordered_after_load_def)
    ultimately show ?thesis by simp
  next
    case False
    let ?s' = "loadFallbackImages index imagesArr (s\<lparr>delayed := rest\<rparr>)"
    have r: "requested ?s' = requested s @ [(?k, clock s)]"
      using False by (simp add: loadFallbackImages_def idx)
    have rest: "pushed ?s' = pushed s @ [\<lparr>start = percent (imagesArr ! ?k), g_show = False\<rparr>]"
      "inflight ?s' = [?k]" "delayed ?s' = []" "loaded ?s' = loaded s"
      using False ph(2) by (simp_all add: loadFallbackImages_def idx)
    have o: "ordered_after_load ?s'"
      unfolding ordered_after_load_def
    proof (intro allI impI)
      fix j assume "Suc j < length (requested ?s')"
      then have j: "Suc j < Suc ?k" by (simp add: r)
      show "\<exists>t. (j, t) \<in> set (loaded ?s') \<and> t + loadDelay \<le> snd (requested ?s' ! Suc j)"
      proof (cases "Suc j < ?k")
        case True
        then obtain t' where "(j, t') \<in> set (loaded s)"
            "t' + loadDelay \<le> snd (requested s ! Suc j)"
          using base(4) by (auto simp: ordered_after_load_def)
        then show ?thesis using True by (auto simp: r rest nth_append)
      next
        case False
        then have "Suc j = ?k" using j by simp
        then have "j = ?k - 1" "requested ?s' ! Suc j = (?k, clock s)"
          by (simp_all add: r nth_append)
        then show ?thesis using ph(5) due idx(3) by (auto simp: rest)
      qed
    qed
    have k: "Suc ?k \<le> length imagesArr" using False by simp
    show ?thesis
      unfolding loader_inv_def Let_def
      using base(1,3) ph(3) k o by (simp add: r rest)
  qed
qed

lemma loader_inv_step:
  "loader_inv imagesArr s \<Longrightarrow> loader_step imagesArr ev s = Some s' \<Longrightarrow> loader_inv imagesArr s'"
proof (cases ev)
  case (Advance d)
  assume "loader_inv imagesArr s" "loader_step imagesArr ev s = Some s'"
  then show ?thesis using Advance by (auto simp: loader_inv_advance)
next
  case (ImgLoad index)
  assume "loader_inv imagesArr s" "loader_step imagesArr ev s = Some s'"
  then show ?thesis using ImgLoad by (auto simp: loader_inv_onload split: if_splits)
next
  case TimerFire
  assume "loader_inv imagesArr s" "loader_step imagesArr ev s = Some s'"
  then show ?thesis using TimerFire
    by (auto simp: loader_inv_timer split: list.splits if_splits)
qed

lemma loader_inv_run:
  "loader_inv imagesArr s \<Longrightarrow> loader_run imagesArr evs s = Some s' \<Longrightarrow> loader_inv imagesArr s'"
proof (induction evs arbitrary: s)
  case Nil
  then show ?case by simp
next
  case (Cons ev evs)
  then obtain s1 where s1: "loader_step imagesArr ev s = Some s1"
      "loader_run imagesArr evs s1 = Some s'"
    by (auto split: option.splits)
  then show ?case using Cons.IH Cons.prems(1) loader_inv_step by blast
qed


text \<open>
  C6. In every state the loader can reach from \<open>loadFallbackImages (0, obj.slides)\<close>, at most
  one image request is in flight, the images have been requested in slide order (the
  requests so far are those of the indices 0, 1, 2, ... without a gap), and the request for
  image \<open>j + 1\<close> was made at least the fixed delay of 100 ms after the load callback of
  image \<open>j\<close> fired.
\<close>

theorem fallback_images_load_in_sequence:
  "loader_run imagesArr evs (loader_init imagesArr) = Some s \<longrightarrow>
     length (inflight s) \<le> 1
     \<and> map fst (requested s) = [0..<length (requested s)]
     \<and> length (requested s) \<le> length imagesArr
     \<and> (\<forall>j. Suc j < length (requested s) \<longrightarrow>
           (\<exists>t. (j, t) \<in> set (loaded s) \<and> t + 100 \<le> snd (requested s ! Suc j)))"
proof
  assume "loader_run imagesArr evs (loader_init imagesArr) = Some s"
  then have inv: "loader_inv imagesArr s"
    using loader_inv_init loader_inv_run by blast
  then have "length (inflight s) \<le> 1"
    by (auto simp: loader_inv_def Let_def)
  moreover have "map fst (requested s) = [0..<length (requested s)]"
    "length (requested s) \<le> length imagesArr"
    using inv by (simp_all add: loader_inv_def Let_def)
  moreover have "ordered_after_load s" using inv by (simp add: loader_inv_def Let_def)
  then have "\<forall>j. Suc j < length (requested s) \<longrightarrow>
           (\<exists>t. (j, t) \<in> set (loaded s) \<and> t + 100 \<le> snd (requested s ! Suc j))"
    by (simp add: ordered_after_load_def loadDelay_def)
  ultimately show "length (inflight s) \<le> 1
     \<and> map fst (requested s) = [0..<length (requested s)]
     \<and> length (requested s) \<le> length imagesArr
     \<and> (\<forall>j. Suc j < length (requested s) \<longrightarrow>
           (\<exists>t. (j, t) \<in> set (loaded s) \<and> t + 100 \<le> snd (requested s ! Suc j)))"
    by blast
qed

theorem fallback_images_load_in_sequence_witness:
  "loader_run (slides demo_binding) [ImgLoad 0, Advance 130, TimerFire, Advance 50]
       (loader_init (slides demo_binding))
     = Some \<lparr>clock = 180,
             pushed = [\<lparr>start = 1 / 10, g_show = True\<rparr>, \<lparr>start = 1 / 2, g_show = False\<rparr>],
             requested = [(0, 0), (1, 130)], loaded = [(0, 0)], inflight = [1],
             delayed = []\<rparr>
   \<and> loader_run (slides demo_binding) [ImgLoad 0, TimerFire]
       (loader_init (slides demo_binding)) = None
   \<and> loader_run (slides demo_binding) [ImgLoad 1]
       (loader_init (slides demo_binding)) = None
   \<and> (\<exists>t. (0, t) \<in> set [(0::nat, 0::nat)] \<and> t + 100 \<le> snd ([(0::nat, 0::nat), (1, 130)] ! Suc 0))"
proof -
  let ?s = "\<lparr>clock = 180,
             pushed = [\<lparr>start = 1 / 10, g_show = True\<rparr>, \<lparr>start = 1 / 2, g_show = False\<rparr>],
             requested = [(0, 0), (1, 130)], loaded = [(0, 0)], inflight = [1],
             delayed = []\<rparr>"
  have run: "loader_run (slides demo_binding) [ImgLoad 0, Advance 130, TimerFire, Advance 50]
       (loader_init (slides demo_binding)) = Some ?s"
    by (simp add: demo_binding_def loader_init_def loadFallbackImages_def imgOnload_def
        loadDelay_def)
  have early: "loader_run (slides demo_binding) [ImgLoad 0, TimerFire]
       (loader_init (slides demo_binding)) = None"
    by (simp add: demo_binding_def loader_init_def loadFallbackImages_def imgOnload_def
        loadDelay_def)
  have unrequested: "loader_run (slides demo_binding) [ImgLoad 1]
       (loader_init (slides demo_binding)) = None"
    by (simp add: demo_binding_def loader_init_def loadFallbackImages_def)
  have "\<forall>j. Suc j < length (requested ?s) \<longrightarrow>
           (\<exists>t. (j, t) \<in> set (loaded ?s) \<and> t + 100 \<le> snd (requested ?s ! Suc j))"
    using fallback_images_load_in_sequence [THEN mp, OF run] by blast
  then have "\<exists>t. (0, t) \<in> set (loaded ?s) \<and> t + 100 \<le> snd (requested ?s ! Suc 0)"
    by simp
  then show ?thesis using run early unrequested by simp
qed

subsection \<open>A video that never becomes playable, and the load timeout\<close>

lemma not_ready_jumpToTime:
  assumes "\<not> readyState s"
  shows "jumpToTime cfg pct s = Inr ((showFallback s)\<lparr>videoLastFrame := easedFrame cfg s pct\<rparr>)"
  using assms by (intro jumpToTime_fallback) simp

lemma not_ready_step:
  assumes nr: "not_ready s" and ev: "never_playable [ev]"
  shows "\<exists>s'. player_step cfg ev s = Inr s' \<and> not_ready s'
           \<and> currentTime (video s') = currentTime (video s)
           \<and> (visibility (video s) \<noteq> Vis_visible \<longrightarrow> visibility (video s') \<noteq> Vis_visible)"
proof (cases ev)
  case (Progress e)
  then show ?thesis using nr
    by (simp add: not_ready_def onProgress_def adjustScrollPct_def Let_def)
next
  case Timeout
  show ?thesis
  proof (cases "timeouts s")
    case Nil
    then show ?thesis using Timeout nr by simp
  next
    case (Cons pct rest)
    have "\<not> readyState (s\<lparr>timeouts := rest\<rparr>)" using nr by (simp add: not_ready_def)
    then have "jumpToTime cfg pct (s\<lparr>timeouts := rest\<rparr>) =
        Inr ((showFallback (s\<lparr>timeouts := rest\<rparr>))
               \<lparr>videoLastFrame := easedFrame cfg (s\<lparr>timeouts := rest\<rparr>) pct\<rparr>)"
      by (rule not_ready_jumpToTime)
    then show ?thesis using Timeout Cons nr
      by (simp add: not_ready_def showFallback_def)
  qed
next
  case TimeUpdate
  then show ?thesis using nr
    by (simp add: not_ready_def onTimeUpdate_def adjustScrollPct_def)
next
  case PlayThroughTick
  then show ?thesis using nr by (simp add: not_ready_def playThroughTick_def)
next
  case (Media n b)
  then show ?thesis using nr ev by (simp add: not_ready_def)
next
  case (Images imgs)
  then show ?thesis using nr by (simp add: not_ready_def)
next
  case StillLoad
  then show ?thesis using nr by (simp add: not_ready_def stillOnload_def split: option.split)
qed

lemma never_playable_Cons:
  "never_playable (ev # evs) = (never_playable [ev] \<and> never_playable evs)"
  by (cases ev) simp_all

lemma not_ready_run:
  "not_ready s \<Longrightarrow> never_playable evs \<Longrightarrow>
   \<exists>s'. player_run cfg evs s = Inr s' \<and> not_ready s'
      \<and> currentTime (video s') = currentTime (video s)
      \<and> (visibility (video s) \<noteq> Vis_visible \<longrightarrow> visibility (video s') \<noteq> Vis_visible)"
proof (induction evs arbitrary: s)
  case Nil
  then show ?case by simp
next
  case (Cons ev evs)
  then have e: "never_playable [ev]" and es: "never_playable evs"
    using never_playable_Cons by blast+
  obtain s1 where s1: "player_step cfg ev s = Inr s1" "not_ready s1"
      "currentTime (video s1) = currentTime (video s)"
      "visibility (video s) \<noteq> Vis_visible \<longrightarrow> visibility (video s1) \<noteq> Vis_visible"
    using not_ready_step[OF Cons.prems(1) e] by blast
  obtain s' where s': "player_run cfg evs s1 = Inr s'" "not_ready s'"
      "currentTime (video s') = currentTime (video s1)"
      "visibility (video s1) \<noteq> Vis_visible \<longrightarrow> visibility (video s') \<noteq> Vis_visible"
    using Cons.IH[OF s1(2) es] by blast
  show ?case using s1 s' by simp
qed

lemma next_video_counts: "vidsLoaded (next_video i s) = Suc (vidsLoaded s)"
  by (simp add: next_video_def loadVideosAsync_def setSrc_def Let_def)

lemma next_video_arms_next:
  assumes "vidsLoaded s < length (videos s)" and "vidsLoaded s \<noteq> i"
  shows "videos (next_video i s) ! vidsLoaded s =
     \<lparr>loadNextVideo = Some (now s + gracePeriod), listening = True, src_set = True,
      vid_paused = False\<rparr>"
  using assms by (simp add: next_video_def loadVideosAsync_def setSrc_def Let_def)

lemma next_video_disarms:
  assumes "i < length (videos s)" and "vidsLoaded s \<noteq> i"
  shows "loadNextVideo (videos (next_video i s) ! i) = None"
    and "\<not> listening (videos (next_video i s) ! i)"
    and "vid_paused (videos (next_video i s) ! i)"
  using assms by (simp_all add: next_video_def loadVideosAsync_def setSrc_def Let_def)

lemma next_video_length: "length (videos (next_video i s)) = length (videos s)"
  by (simp add: next_video_def loadVideosAsync_def setSrc_def Let_def)


lemma showFallback_some_shown:
  "list_ex g_show (fallbackImages (showFallback s)) =
     (fallbackImages s \<noteq> [] \<and> (0 < scrollPct s \<or> scrollPct s < start (fallbackImages s ! 0)))"
proof
  assume "list_ex g_show (fallbackImages (showFallback s))"
  then obtain i where i: "i < length (fallbackImages s)"
      "g_show (fallbackImages (showFallback s) ! i)"
    by (auto simp: list_ex_length showFallback_length)
  then have "start (fallbackImages s ! i) \<le> scrollPct s \<and> 0 < scrollPct s
      \<or> scrollPct s < start (fallbackImages s ! i) \<and> i = 0"
    by (simp add: showFallback_nth)
  then show "fallbackImages s \<noteq> [] \<and> (0 < scrollPct s \<or> scrollPct s < start (fallbackImages s ! 0))"
    using i(1) by auto
next
  assume h: "fallbackImages s \<noteq> [] \<and> (0 < scrollPct s \<or> scrollPct s < start (fallbackImages s ! 0))"
  then have l: "0 < length (fallbackImages s)" by simp
  have "start (fallbackImages s ! 0) \<le> scrollPct s \<and> 0 < scrollPct s
      \<or> scrollPct s < start (fallbackImages s ! 0)"
    using h by linarith
  then have "g_show (fallbackImages (showFallback s) ! 0)"
    using l by (simp add: showFallback_nth)
  then show "list_ex g_show (fallbackImages (showFallback s))"
    using l by (auto simp: list_ex_length showFallback_length)
qed

text \<open>
  C7, as the code has it. As long as the browser never reports a playable ready-state (above
  3) for the video, whatever else happens to the binding (progress events, timeouts, time
  updates, ticks of the polling interval, buffering, image loading), the ready flag stays
  unset, every buffering check returns false, and every \<open>jumpToTime\<close> is the fallback path:
  it hides the video (opacity 0, visibility hidden), never writes the play position, and
  gives \<open>g-show\<close> to exactly the fallback images that \<open>showFallback\<close> marks. A fallback image is
  then shown exactly when at least one has been pushed and the scroll percentage is positive
  or below the start of the first image; at scroll percentage 0 with a first slide at 0 the
  video is hidden and no image is shown. Independently, \<open>setSrc\<close> arms a timeout of 7500 ms;
  while it is pending it cannot fire before it is due, and when it fires it runs the same
  \<open>next\<close> as the \<open>canplaythrough\<close> event would: the counter of loaded videos goes up, the
  next video gets its source and its own timeout, and neither the timeout nor the listener
  of this video can run \<open>next\<close> again.
\<close>

theorem unplayable_video_stays_on_fallback:
  "(not_ready s0 \<and> never_playable evs \<longrightarrow>
      (\<exists>s. player_run cfg evs s0 = Inr s \<and> \<not> readyState s
         \<and> currentTime (video s) = currentTime (video s0)
         \<and> (visibility (video s0) \<noteq> Vis_visible \<longrightarrow> visibility (video s) \<noteq> Vis_visible)
         \<and> checkBuffered cfg s frameToUse = Inr False
         \<and> jumpToTime cfg pct s =
             Inr ((showFallback s)\<lparr>videoLastFrame := easedFrame cfg s pct\<rparr>)
         \<and> (\<exists>s'. jumpToTime cfg pct s = Inr s'
               \<and> opacity (video s') = Some 0 \<and> visibility (video s') = Vis_hidden
               \<and> currentTime (video s') = currentTime (video s0)
               \<and> \<not> readyState s'
               \<and> length (fallbackImages s') = length (fallbackImages s)
               \<and> (\<forall>i<length (fallbackImages s).
                     start (fallbackImages s' ! i) = start (fallbackImages s ! i)
                     \<and> g_show (fallbackImages s' ! i) =
                         (start (fallbackImages s ! i) \<le> scrollPct s \<and> 0 < scrollPct s
                          \<or> scrollPct s < start (fallbackImages s ! i) \<and> i = 0))
               \<and> list_ex g_show (fallbackImages s') =
                   (fallbackImages s \<noteq> []
                    \<and> (0 < scrollPct s \<or> scrollPct s < start (fallbackImages s ! 0))))))
   \<and> (i < length (videos p) \<longrightarrow>
         loadNextVideo (videos (setSrc i p) ! i) = Some (now p + 7500)
         \<and> listening (videos (setSrc i p) ! i))
   \<and> (i < length (videos p) \<and> loadNextVideo (videos p ! i) = Some due
        \<and> listening (videos p ! i) \<longrightarrow>
         page_step (LoadTimeout i) p = (if due \<le> now p then Some (next_video i p) else None)
         \<and> (due \<le> now p \<longrightarrow> page_step (LoadTimeout i) p = page_step (CanPlayThrough i) p)
         \<and> vidsLoaded (next_video i p) = Suc (vidsLoaded p)
         \<and> (vidsLoaded p < length (videos p) \<and> vidsLoaded p \<noteq> i \<longrightarrow>
               videos (next_video i p) ! vidsLoaded p =
                 \<lparr>loadNextVideo = Some (now p + 7500), listening = True, src_set = True,
                  vid_paused = False\<rparr>)
         \<and> (vidsLoaded p \<noteq> i \<longrightarrow>
               page_step (LoadTimeout i) (next_video i p) = None
               \<and> page_step (CanPlayThrough i) (next_video i p) = None))"
proof -
  have part1: "\<exists>s. player_run cfg evs s0 = Inr s \<and> \<not> readyState s
         \<and> currentTime (video s) = currentTime (video s0)
         \<and> (visibility (video s0) \<noteq> Vis_visible \<longrightarrow> visibility (video s) \<noteq> Vis_visible)
         \<and> checkBuffered cfg s frameToUse = Inr False
         \<and> jumpToTime cfg pct s =
             Inr ((showFallback s)\<lparr>videoLastFrame := easedFrame cfg s pct\<rparr>)
         \<and> (\<exists>s'. jumpToTime cfg pct s = Inr s'
               \<and> opacity (video s') = Some 0 \<and> visibility (video s') = Vis_hidden
               \<and> currentTime (video s') = currentTime (video s0)
               \<and> \<not> readyState s'
               \<and> length (fallbackImages s') = length (fallbackImages s)
               \<and> (\<forall>i<length (fallbackImages s).
                     start (fallbackImages s' ! i) = start (fallbackImages s ! i)
                     \<and> g_show (fallbackImages s' ! i) =
                         (start (fallbackImages s ! i) \<le> scrollPct s \<and> 0 < scrollPct s
                          \<or> scrollPct s < start (fallbackImages s ! i) \<and> i = 0))
               \<and> list_ex g_show (fallbackImages s') =
                   (fallbackImages s \<noteq> []
                    \<and> (0 < scrollPct s \<or> scrollPct s < start (fallbackImages s ! 0))))"
    if h: "not_ready s0 \<and> never_playable evs"
  proof -
    obtain s where s: "player_run cfg evs s0 = Inr s" "not_ready s"
        "currentTime (video s) = currentTime (video s0)"
        "visibility (video s0) \<noteq> Vis_visible \<longrightarrow> visibility (video s) \<noteq> Vis_visible"
      using not_ready_run[of s0 evs cfg] h by blast
    have nr: "\<not> readyState s" using s(2) by (simp add: not_ready_def)
    have cb: "checkBuffered cfg s frameToUse = Inr False" using nr by (simp add: checkBuffered_def)
    define s' where "s' = (showFallback s)\<lparr>videoLastFrame := easedFrame cfg s pct\<rparr>"
    have j: "jumpToTime cfg pct s = Inr s'"
      unfolding s'_def using nr by (rule not_ready_jumpToTime)
    have f: "fallbackImages s' = fallbackImages (showFallback s)" "video s' = video (showFallback s)"
      "readyState s' = readyState s"
      by (simp_all add: s'_def showFallback_fields)
    have v: "opacity (video s') = Some 0" "visibility (video s') = Vis_hidden"
      "currentTime (video s') = currentTime (video s0)" "\<not> readyState s'"
      using nr s(3) by (simp_all add: f showFallback_fields)
    have len: "length (fallbackImages s') = length (fallbackImages s)"
      by (simp add: f showFallback_length)
    have each: "\<forall>i<length (fallbackImages s).
                     start (fallbackImages s' ! i) = start (fallbackImages s ! i)
                     \<and> g_show (fallbackImages s' ! i) =
                         (start (fallbackImages s ! i) \<le> scrollPct s \<and> 0 < scrollPct s
                          \<or> scrollPct s < start (fallbackImages s ! i) \<and> i = 0)"
      by (simp add: f showFallback_nth)
    have some: "list_ex g_show (fallbackImages s') =
                   (fallbackImages s \<noteq> []
                    \<and> (0 < scrollPct s \<or> scrollPct s < start (fallbackImages s ! 0)))"
      unfolding f by (rule showFallback_some_shown)
    have inner: "\<exists>s'. jumpToTime cfg pct s = Inr s'
               \<and> opacity (video s') = Some 0 \<and> visibility (video s') = Vis_hidden
               \<and> currentTime (video s') = currentTime (video s0)
               \<and> \<not> readyState s'
               \<and> length (fallbackImages s') = length (fallbackImages s)
               \<and> (\<forall>i<length (fallbackImages s).
                     start (fallbackImages s' ! i) = start (fallbackImages s ! i)
                     \<and> g_show (fallbackImages s' ! i) =
                         (start (fallbackImages s ! i) \<le> scrollPct s \<and> 0 < scrollPct s
                          \<or> scrollPct s < start (fallbackImages s ! i) \<and> i = 0))
               \<and> list_ex g_show (fallbackImages s') =
                   (fallbackImages s \<noteq> []
                    \<and> (0 < scrollPct s \<or> scrollPct s < start (fallbackImages s ! 0)))"
      using j v len each some by blast
    have j': "jumpToTime cfg pct s =
             Inr ((showFallback s)\<lparr>videoLastFrame := easedFrame cfg s pct\<rparr>)"
      using j by (simp add: s'_def)
    show ?thesis
      using s(1) nr s(3) s(4) cb j' inner by blast
  qed
  have arm: "loadNextVideo (videos (setSrc i p) ! i) = Some (now p + 7500)
         \<and> listening (videos (setSrc i p) ! i)"
    if "i < length (videos p)"
    using that by (simp add: setSrc_def gracePeriod_def)
  have fire: "page_step (LoadTimeout i) p = (if due \<le> now p then Some (next_video i p) else None)
         \<and> (due \<le> now p \<longrightarrow> page_step (LoadTimeout i) p = page_step (CanPlayThrough i) p)"
    if "i < length (videos p) \<and> loadNextVideo (videos p ! i) = Some due
        \<and> listening (videos p ! i)"
    using that by simp
  have count: "vidsLoaded (next_video i p) = Suc (vidsLoaded p)"
    by (rule next_video_counts)
  have nxt: "videos (next_video i p) ! vidsLoaded p =
                 \<lparr>loadNextVideo = Some (now p + 7500), listening = True, src_set = True,
                  vid_paused = False\<rparr>"
    if "vidsLoaded p < length (videos p) \<and> vidsLoaded p \<noteq> i"
    using that next_video_arms_next[of p i] by (simp add: gracePeriod_def)
  have once: "page_step (LoadTimeout i) (next_video i p) = None
               \<and> page_step (CanPlayThrough i) (next_video i p) = None"
    if "i < length (videos p)" "vidsLoaded p \<noteq> i"
    using next_video_disarms(1,2)[OF that] by (simp add: next_video_length)
  show ?thesis using part1 arm fire count nxt once by blast
qed

theorem unplayable_video_stays_on_fallback_witness:
  "not_ready demo_waiting
   \<and> never_playable [Media 2 [(0, 5)], PlayThroughTick,
                      Progress \<lparr>ev_state = DURING, progress = 1 / 2\<rparr>, Timeout]
   \<and> (case player_run demo_binding
             [Media 2 [(0, 5)], PlayThroughTick,
              Progress \<lparr>ev_state = DURING, progress = 1 / 2\<rparr>, Timeout] demo_waiting of
         Inl e \<Rightarrow> None
       | Inr s \<Rightarrow> Some (readyState s, currentTime (video s), scrollPct s,
                        visibility (video s), map g_show (fallbackImages s)))
       = Some (False, 0, 1 / 2, Vis_hidden, [True, True])
   \<and> (case jumpToTime demo_binding (1 / 2) demo_waiting of
         Inl e \<Rightarrow> None
       | Inr s' \<Rightarrow> Some (visibility (video s'), list_ex g_show (fallbackImages s')))
       = Some (Vis_hidden, True)
   \<and> loadNextVideo (videos (page_init 2) ! 0) = Some 7500
   \<and> listening (videos (page_init 2) ! 0)
   \<and> page_step (LoadTimeout 0) (page_init 2) = None
   \<and> page_step (LoadTimeout 0) ((page_init 2)\<lparr>now := 7500\<rparr>)
       = Some (next_video 0 ((page_init 2)\<lparr>now := 7500\<rparr>))
   \<and> vidsLoaded (next_video 0 ((page_init 2)\<lparr>now := 7500\<rparr>)) = 2
   \<and> videos (next_video 0 ((page_init 2)\<lparr>now := 7500\<rparr>)) ! 1
       = \<lparr>loadNextVideo = Some 15000, listening = True, src_set = True, vid_paused = False\<rparr>"
proof -
  let ?evs = "[Media 2 [(0, 5)], PlayThroughTick,
               Progress \<lparr>ev_state = DURING, progress = 1 / 2\<rparr>, Timeout]"
  let ?p = "(page_init 2)\<lparr>now := 7500\<rparr>"
  have nr: "not_ready demo_waiting" by (simp add: not_ready_def demo_waiting_def demo_player_def)
  have np: "never_playable ?evs" by simp
  have np0: "never_playable []" by simp
  have w: "currentTime (video demo_waiting) = 0" "scrollPct demo_waiting = 7 / 10"
    "fallbackImages demo_waiting \<noteq> []"
    by (simp_all add: demo_waiting_def demo_player_def)
  note T = unplayable_video_stays_on_fallback
  have run: "(case player_run demo_binding ?evs demo_waiting of
         Inl e \<Rightarrow> None
       | Inr s \<Rightarrow> Some (readyState s, currentTime (video s), scrollPct s,
                        visibility (video s), map g_show (fallbackImages s)))
       = Some (False, 0, 1 / 2, Vis_hidden, [True, True])"
    by (simp add: demo_waiting_def demo_player_def demo_binding_def playThroughTick_def
        onProgress_def adjustScrollPct_def jumpToPct_def jumpToTime_def checkBuffered_def
        showFallback_def easedFrame_def videoNextFrame_def stepDivisor_def Let_def
        enumerate_eq_zip upt_rec)
  have h0: "not_ready demo_waiting \<and> never_playable []" using nr np0 by simp
  obtain s where s: "player_run demo_binding [] demo_waiting = Inr s"
      "\<exists>s'. jumpToTime demo_binding (1 / 2) s = Inr s'
         \<and> opacity (video s') = Some 0 \<and> visibility (video s') = Vis_hidden
         \<and> currentTime (video s') = currentTime (video demo_waiting)
         \<and> \<not> readyState s'
         \<and> length (fallbackImages s') = length (fallbackImages s)
         \<and> (\<forall>i<length (fallbackImages s).
               start (fallbackImages s' ! i) = start (fallbackImages s ! i)
               \<and> g_show (fallbackImages s' ! i) =
                   (start (fallbackImages s ! i) \<le> scrollPct s \<and> 0 < scrollPct s
                    \<or> scrollPct s < start (fallbackImages s ! i) \<and> i = 0))
         \<and> list_ex g_show (fallbackImages s') =
             (fallbackImages s \<noteq> []
              \<and> (0 < scrollPct s \<or> scrollPct s < start (fallbackImages s ! 0)))"
    using T[of demo_waiting "[]" demo_binding 0 "1 / 2", THEN conjunct1, THEN mp, OF h0]
    by blast
  have sw: "s = demo_waiting" using s(1) by simp
  obtain s' where s': "jumpToTime demo_binding (1 / 2) demo_waiting = Inr s'"
      "visibility (video s') = Vis_hidden"
      "list_ex g_show (fallbackImages s') =
         (fallbackImages demo_waiting \<noteq> []
          \<and> (0 < scrollPct demo_waiting
              \<or> scrollPct demo_waiting < start (fallbackImages demo_waiting ! 0)))"
    using s(2) unfolding sw by blast
  have shown: "(case jumpToTime demo_binding (1 / 2) demo_waiting of
         Inl e \<Rightarrow> None
       | Inr s' \<Rightarrow> Some (visibility (video s'), list_ex g_show (fallbackImages s')))
       = Some (Vis_hidden, True)"
    using s' w by simp
  have init: "page_init 2 =
      \<lparr>now = 0, vidsLoaded = 1,
       videos = [\<lparr>loadNextVideo = Some 7500, listening = True, src_set = True, vid_paused = False\<rparr>,
                 \<lparr>loadNextVideo = None, listening = False, src_set = False,
                  vid_paused = False\<rparr>]\<rparr>"
    by (simp add: page_init_def loadVideosAsync_def setSrc_def gracePeriod_def Let_def
        numeral_2_eq_2)
  have armed: "0 < length (videos ?p) \<and> loadNextVideo (videos ?p ! 0) = Some 7500
        \<and> listening (videos ?p ! 0)"
    by (simp add: init)
  note F = T[of _ _ _ _ _ 0 ?p 7500, THEN conjunct2, THEN conjunct2, THEN mp, OF armed]
  have fire: "page_step (LoadTimeout 0) ?p = Some (next_video 0 ?p)"
    using F[THEN conjunct1] by simp
  have count: "vidsLoaded (next_video 0 ?p) = 2"
    using F[THEN conjunct2, THEN conjunct2, THEN conjunct1] by (simp add: init)
  have nxt: "videos (next_video 0 ?p) ! 1
       = \<lparr>loadNextVideo = Some 15000, listening = True, src_set = True, vid_paused = False\<rparr>"
    using F[THEN conjunct2, THEN conjunct2, THEN conjunct2, THEN conjunct1] by (simp add: init)
  have early: "page_step (LoadTimeout 0) (page_init 2) = None" by (simp add: init)
  show ?thesis using nr np run shown fire count nxt early by (simp add: init)
qed

text \<open>The claim as stated fails: the fallback imagery is not always displayed. With the
  first slide at scroll percentage 0 and a video that never becomes playable, scrolling to
  0.5 and back to 0 leaves the video hidden and no fallback image shown.\<close>

theorem unplayable_video_counterexample:
  "not_ready demo_zero_player
   \<and> never_playable [Progress \<lparr>ev_state = DURING, progress = 1 / 2\<rparr>,
                      Progress \<lparr>ev_state = DURING, progress = 0\<rparr>, Timeout]
   \<and> map start (fallbackImages demo_zero_player) = [0, 1 / 2]
   \<and> map percent (slides demo_zero_binding) = [0, 1 / 2]
   \<and> (case player_run demo_zero_binding
             [Progress \<lparr>ev_state = DURING, progress = 1 / 2\<rparr>,
              Progress \<lparr>ev_state = DURING, progress = 0\<rparr>, Timeout] demo_zero_player of
         Inl e \<Rightarrow> None
       | Inr s \<Rightarrow> Some (scrollPct s, visibility (video s), map g_show (fallbackImages s)))
       = Some (0, Vis_hidden, [False, False])"
  by (simp add: not_ready_def demo_zero_player_def demo_zero_binding_def demo_waiting_def
      demo_player_def demo_binding_def onProgress_def adjustScrollPct_def jumpToPct_def
      jumpToTime_def checkBuffered_def showFallback_def easedFrame_def videoNextFrame_def
      stepDivisor_def Let_def enumerate_eq_zip upt_rec)

end
